theory Spec2Isabelle
  imports Main "HOL-Library.Word" "HOL-Library.Log_Nat"
begin

unbundle bit_operations_syntax

section \<open>Machine integers\<close>

text \<open>
  \<open>uint64_t\<close> is a 64-bit word: \<open>+\<close> and \<open>-\<close> wrap modulo \<open>2 ^ 64\<close>, \<open><\<close> compares
  unsigned values, \<open>sint\<close> is the cast to \<open>int64_t\<close>.
\<close>

type_synonym u64 = "64 word"

section \<open>syncTime\<close>

text \<open>
  \<open>syncTime\<close> fills two local arrays from the two clocks and then works on the arrays only.
  The arrays are modelled as functions from the index: \<open>tscs i\<close> is what the call of
  \<open>rdtsc()\<close> stored in \<open>tscs[i]\<close> (\<open>i = 0 .. N\<close>), and \<open>nses i\<close> what the call of
  \<open>rdsysns()\<close> stored in \<open>nses[i]\<close> (\<open>i = 1 .. N\<close>; \<open>nses[0]\<close> is never written nor read).
\<close>

definition N :: nat where
  "N = 10"

text \<open>The difference \<open>tscs[i] - tscs[i - 1]\<close> the second loop compares, in \<open>uint64_t\<close>.\<close>

definition tsc_diff :: "(nat \<Rightarrow> u64) \<Rightarrow> nat \<Rightarrow> u64" where
  "tsc_diff tscs i = tscs i - tscs (i - 1)"

text \<open>
  The second loop, \<open>for (int i = 2; i <= N; i++) if (... < ...) best = i;\<close>, from the
  loop counter \<open>i\<close> and the current \<open>best\<close>.
\<close>

function best_loop :: "(nat \<Rightarrow> u64) \<Rightarrow> nat \<Rightarrow> nat \<Rightarrow> nat" where
  "best_loop tscs i best =
     (if i \<le> N
      then best_loop tscs (i + 1) (if tsc_diff tscs i < tsc_diff tscs best then i else best)
      else best)"
  by pat_completeness auto
termination
  by (relation "measure (\<lambda>(tscs, i, best). N + 1 - i)") auto

declare best_loop.simps [simp del]

definition sync_best :: "(nat \<Rightarrow> u64) \<Rightarrow> nat" where
  "sync_best tscs = best_loop tscs 2 1"

text \<open>\<open>syncTime\<close> returns the pair of its two reference parameters \<open>(tsc, ns)\<close>.\<close>

definition syncTime :: "(nat \<Rightarrow> u64) \<Rightarrow> (nat \<Rightarrow> u64) \<Rightarrow> u64 \<times> u64" where
  "syncTime tscs nses =
     (let best = sync_best tscs
      in (drop_bit 1 (tscs best + tscs (best - 1)), nses best))"

text \<open>
  The loop invariant: \<open>best\<close> has the least difference among the rounds seen so far, and a
  strictly smaller one than every earlier round.
\<close>

definition least_upto :: "(nat \<Rightarrow> u64) \<Rightarrow> nat \<Rightarrow> nat \<Rightarrow> bool" where
  "least_upto tscs n b \<longleftrightarrow>
     (\<forall>j. 1 \<le> j \<and> j < n \<longrightarrow> tsc_diff tscs b \<le> tsc_diff tscs j) \<and>
     (\<forall>j. 1 \<le> j \<and> j < b \<longrightarrow> tsc_diff tscs b < tsc_diff tscs j)"

section \<open>Doubles\<close>

text \<open>
  The arithmetic of \<open>double\<close> on x86-64 (the target of \<open>__builtin_ia32_rdtscp\<close>): IEEE 754
  binary64 with round to nearest, ties to even. A finite double is a sign (\<open>True\<close> for
  minus) and a magnitude, a non-negative rational on the binary64 grid; the sign is kept
  for zero as well. Every operation rounds its exact result to the grid.
\<close>

datatype double = Finite bool rat | Infinity bool | NaN

definition pow2 :: "int \<Rightarrow> rat" where
  "pow2 k = (if 0 \<le> k then 2 ^ nat k else 1 / 2 ^ nat (- k))"

text \<open>The binary exponent \<open>\<lfloor>log\<^sub>2 m\<rfloor>\<close> of a positive rational.\<close>

definition ilog2 :: "rat \<Rightarrow> int" where
  "ilog2 m =
     (let d = bitlen (fst (quotient_of m)) - bitlen (snd (quotient_of m))
      in if pow2 d \<le> m then d else d - 1)"

definition round_even :: "rat \<Rightarrow> int" where
  "round_even x =
     (let n = \<lfloor>x\<rfloor>; r = x - of_int n
      in if r < 1 / 2 then n else if 1 / 2 < r then n + 1 else if even n then n else n + 1)"

text \<open>
  The spacing of the grid at \<open>m\<close>: 53 significant bits, and the exponent of the subnormal
  numbers below \<open>2\<^sup>-\<^sup>1\<^sup>0\<^sup>2\<^sup>2\<close>.
\<close>

definition quantum :: "rat \<Rightarrow> rat" where
  "quantum m = pow2 (max (ilog2 m) (- 1022) - 52)"

definition round_mag :: "rat \<Rightarrow> rat" where
  "round_mag m = (if m = 0 then 0 else of_int (round_even (m / quantum m)) * quantum m)"

text \<open>A magnitude that rounds to \<open>2\<^sup>1\<^sup>0\<^sup>2\<^sup>4\<close> or more overflows to infinity.\<close>

definition mk_double :: "bool \<Rightarrow> rat \<Rightarrow> double" where
  "mk_double s m = (let r = round_mag m in if pow2 1024 \<le> r then Infinity s else Finite s r)"

text \<open>The conversion \<open>(double) i\<close> of an \<open>int64_t\<close> (\<open>cvtsi2sd\<close>).\<close>

definition int_to_double :: "int \<Rightarrow> double" where
  "int_to_double i = mk_double (i < 0) (of_int \<bar>i\<bar>)"

fun dmul :: "double \<Rightarrow> double \<Rightarrow> double" where
  "dmul NaN y = NaN"
| "dmul (Infinity s) NaN = NaN"
| "dmul (Finite s a) NaN = NaN"
| "dmul (Infinity s) (Infinity t) = Infinity (s \<noteq> t)"
| "dmul (Infinity s) (Finite t b) = (if b = 0 then NaN else Infinity (s \<noteq> t))"
| "dmul (Finite s a) (Infinity t) = (if a = 0 then NaN else Infinity (s \<noteq> t))"
| "dmul (Finite s a) (Finite t b) = mk_double (s \<noteq> t) (a * b)"

fun ddiv :: "double \<Rightarrow> double \<Rightarrow> double" where
  "ddiv NaN y = NaN"
| "ddiv (Infinity s) NaN = NaN"
| "ddiv (Finite s a) NaN = NaN"
| "ddiv (Infinity s) (Infinity t) = NaN"
| "ddiv (Infinity s) (Finite t b) = Infinity (s \<noteq> t)"
| "ddiv (Finite s a) (Infinity t) = Finite (s \<noteq> t) 0"
| "ddiv (Finite s a) (Finite t b) =
     (if b = 0 then (if a = 0 then NaN else Infinity (s \<noteq> t))
      else mk_double (s \<noteq> t) (a / b))"

text \<open>The comparison \<open>x <= 0.0\<close>: false for a NaN, true for both zeros.\<close>

fun dle_zero :: "double \<Rightarrow> bool" where
  "dle_zero NaN = False"
| "dle_zero (Infinity s) = s"
| "dle_zero (Finite s m) = (s \<or> m = 0)"

text \<open>
  The conversion \<open>(int64_t) x\<close> (\<open>cvttsd2si\<close>) truncates towards zero. Where the truncated
  value is no \<open>int64_t\<close>, and for a NaN, C++ leaves the result undefined; the instruction
  returns the ``integer indefinite'' value \<open>0x8000000000000000\<close>.
\<close>

definition int64_indefinite :: u64 where
  "int64_indefinite = 0x8000000000000000"

fun double_to_int64 :: "double \<Rightarrow> u64" where
  "double_to_int64 NaN = int64_indefinite"
| "double_to_int64 (Infinity s) = int64_indefinite"
| "double_to_int64 (Finite s m) =
     (let i = (if s then - \<lfloor>m\<rfloor> else \<lfloor>m\<rfloor>)
      in if - (2 ^ 63) \<le> i \<and> i < 2 ^ 63 then word_of_int i else int64_indefinite)"

text \<open>The value of a finite double, and the constant \<open>1.0\<close>.\<close>

fun valof :: "double \<Rightarrow> rat" where
  "valof (Finite s m) = (if s then - m else m)"
| "valof (Infinity s) = 0"
| "valof NaN = 0"

fun is_finite :: "double \<Rightarrow> bool" where
  "is_finite (Finite s m) = True"
| "is_finite (Infinity s) = False"
| "is_finite NaN = False"

definition d_one :: double where
  "d_one = Finite False 1"

section \<open>The class TSCNS\<close>

record TSCNS =
  tsc_ghz_inv :: double
  ns_offset :: u64
  base_tsc :: u64
  base_ns :: u64

text \<open>The default member initialisers.\<close>

definition new_TSCNS :: TSCNS where
  "new_TSCNS = \<lparr>tsc_ghz_inv = d_one, ns_offset = 0, base_tsc = 0, base_ns = 0\<rparr>"

text \<open>\<open>(int64_t)((int64_t)tsc * tsc_ghz_inv)\<close>, the term \<open>tsc2ns\<close> and \<open>adjustOffset\<close> share.\<close>

definition scaled :: "double \<Rightarrow> u64 \<Rightarrow> u64" where
  "scaled ghz_inv tsc = double_to_int64 (dmul (int_to_double (sint tsc)) ghz_inv)"

definition adjustOffset :: "TSCNS \<Rightarrow> TSCNS" where
  "adjustOffset c = c\<lparr>ns_offset := base_ns c - scaled (tsc_ghz_inv c) (base_tsc c)\<rparr>"

text \<open>
  \<open>init\<close> and \<open>calibrate\<close> take the content of the arrays of their call of \<open>syncTime\<close>;
  \<open>calibrate\<close> returns its result together with the new object.
\<close>

definition init :: "TSCNS \<Rightarrow> double \<Rightarrow> (nat \<Rightarrow> u64) \<Rightarrow> (nat \<Rightarrow> u64) \<Rightarrow> TSCNS" where
  "init c tsc_ghz tscs nses =
     (let (tsc, ns) = syncTime tscs nses;
          c1 = c\<lparr>base_tsc := tsc, base_ns := ns\<rparr>
      in if dle_zero tsc_ghz then c1
         else adjustOffset (c1\<lparr>tsc_ghz_inv := ddiv d_one tsc_ghz\<rparr>))"

definition calibrate :: "TSCNS \<Rightarrow> (nat \<Rightarrow> u64) \<Rightarrow> (nat \<Rightarrow> u64) \<Rightarrow> double \<times> TSCNS" where
  "calibrate c tscs nses =
     (let (delayed_tsc, delayed_ns) = syncTime tscs nses;
          c1 = adjustOffset
                 (c\<lparr>tsc_ghz_inv :=
                      ddiv (int_to_double (sint (delayed_ns - base_ns c)))
                           (int_to_double (sint (delayed_tsc - base_tsc c)))\<rparr>)
      in (ddiv d_one (tsc_ghz_inv c1), c1))"

definition tsc2ns :: "TSCNS \<Rightarrow> u64 \<Rightarrow> u64" where
  "tsc2ns c tsc = ns_offset c + scaled (tsc_ghz_inv c) tsc"

text \<open>\<open>rdns\<close> converts the value its call of \<open>rdtsc()\<close> returned.\<close>

definition rdns :: "TSCNS \<Rightarrow> u64 \<Rightarrow> u64" where
  "rdns c tsc_now = tsc2ns c tsc_now"

definition rdoffset :: "TSCNS \<Rightarrow> u64" where
  "rdoffset c = ns_offset c"

section \<open>Notions used to state the properties\<close>

text \<open>
  Truncation of a rational towards zero, and rounding of a rational to the binary64 grid
  (to nearest, ties to even).
\<close>

definition trunc_zero :: "rat \<Rightarrow> int" where
  "trunc_zero x = (if x < 0 then - \<lfloor>- x\<rfloor> else \<lfloor>x\<rfloor>)"

definition rnd :: "rat \<Rightarrow> rat" where
  "rnd x = sgn x * round_mag \<bar>x\<bar>"

text \<open>
  The doubles whose cast to \<open>int64_t\<close> is defined in C++: the finite ones whose
  truncation is an \<open>int64_t\<close>.
\<close>

definition in_int64 :: "double \<Rightarrow> bool" where
  "in_int64 d \<longleftrightarrow>
     is_finite d \<and> - (2 ^ 63) \<le> trunc_zero (valof d) \<and> trunc_zero (valof d) < 2 ^ 63"




section \<open>Sample arrays and clocks used in the examples\<close>

text \<open>A clock that returns \<open>v\<close> at every reading, and two arrays of a run with jitter.\<close>

definition steady :: "u64 \<Rightarrow> nat \<Rightarrow> u64" where
  "steady v i = v"

definition jitter_tscs :: "nat \<Rightarrow> u64" where
  "jitter_tscs i = [1000, 1040, 1100, 1130, 1139, 1170, 1179, 1230, 1260, 1300, 1350] ! i"

definition jitter_nses :: "nat \<Rightarrow> u64" where
  "jitter_nses i = 5000 + 20 * of_nat i"

text \<open>The arrays with jitter, every reading moved by \<open>d\<close>.\<close>

definition shifted_tscs :: "u64 \<Rightarrow> nat \<Rightarrow> u64" where
  "shifted_tscs d i = jitter_tscs i + d"


text \<open>The arguments \<open>0.0\<close> and \<open>2.0\<close> of \<open>init\<close> in the examples.\<close>

definition d_zero :: double where
  "d_zero = Finite False 0"

definition d_two :: double where
  "d_two = Finite False 2"

text \<open>
  A clock whose counter was started long before \<open>init\<close> and runs at two ticks per
  nanosecond, initialised with \<open>init(2.0)\<close> at \<open>3,000,000,000,000\<close> ticks and
  \<open>1,000,000,000\<close> ns: \<open>ns_offset\<close> comes out negative.
\<close>

definition late_counter :: TSCNS where
  "late_counter = init new_TSCNS d_two (steady 3000000000000) (steady 1000000000)"

text \<open>
  A clock calibrated over \<open>4,000,000,000\<close> ticks and \<open>3,000,000,000\<close> ns:
  \<open>tsc_ghz_inv\<close> is \<open>0.75\<close>.
\<close>

definition three_quarter_clock :: TSCNS where
  "three_quarter_clock =
     snd (calibrate (init new_TSCNS d_zero (steady 1000) (steady 5000))
            (steady 4000001000) (steady 3000005000))"

text \<open>
  A clock calibrated while the wall clock was set back: \<open>2,000,000,000\<close> ticks after
  \<open>init\<close> the wall clock reads \<open>1,000,000,000\<close> ns less, and \<open>tsc_ghz_inv\<close> is \<open>-0.5\<close>.
\<close>

definition backward_clock :: TSCNS where
  "backward_clock =
     snd (calibrate (init new_TSCNS d_zero (steady 1000) (steady 5000000000))
            (steady 2000001000) (steady 4000000000))"

text \<open>
  A clock on a 3 GHz counter: \<open>init\<close> at \<open>1,000,000,000\<close> ticks and \<open>5,000,000,000\<close> ns,
  \<open>calibrate\<close> one second later.
\<close>

definition ghz3_clock :: TSCNS where
  "ghz3_clock =
     snd (calibrate (init new_TSCNS d_zero (steady 1000000000) (steady 5000000000))
            (steady 4000000000) (steady 6000000000))"

text \<open>
  A calibration on a 2.6 GHz counter over five seconds: \<open>13,000,000,000\<close> ticks and
  \<open>5,000,000,000\<close> ns after \<open>init\<close>.
\<close>

definition ghz26_calibration :: "double \<times> TSCNS" where
  "ghz26_calibration =
     calibrate (init new_TSCNS d_zero (steady 1000000000) (steady 5000000000))
       (steady 14000000000) (steady 10000000000)"

text \<open>The doubles that the quotient of two converted \<open>int64_t\<close> can be.\<close>

definition quotient_shape :: "double \<Rightarrow> bool" where
  "quotient_shape d \<longleftrightarrow>
     (case d of
        NaN \<Rightarrow> True
      | Infinity s \<Rightarrow> True
      | Finite s x \<Rightarrow> x = 0 \<or> pow2 (- 1022) \<le> x \<and> x \<le> pow2 1022)"

section \<open>The selection loop\<close>

lemma best_loop_range:
  "1 \<le> best \<Longrightarrow> best < i \<Longrightarrow> i \<le> N + 1 \<Longrightarrow>
   1 \<le> best_loop tscs i best \<and> best_loop tscs i best \<le> N"
proof (induction tscs i best rule: best_loop.induct)
  case (1 tscs i best)
  show ?case
  proof (cases "i \<le> N")
    case True
    let ?b = "if tsc_diff tscs i < tsc_diff tscs best then i else best"
    have "1 \<le> ?b" "?b < i + 1" "i + 1 \<le> N + 1"
      using "1.prems" True by auto
    with "1.IH" [OF True] have "1 \<le> best_loop tscs (i + 1) ?b \<and> best_loop tscs (i + 1) ?b \<le> N"
      by blast
    with True show ?thesis
      by (subst (1 2) best_loop.simps) simp
  next
    case False
    with "1.prems" show ?thesis
      by (subst (1 2) best_loop.simps) simp
  qed
qed

lemma least_upto_step:
  assumes "least_upto tscs i best" and "best < i"
  shows "least_upto tscs (i + 1) (if tsc_diff tscs i < tsc_diff tscs best then i else best)"
proof (cases "tsc_diff tscs i < tsc_diff tscs best")
  case True
  have "tsc_diff tscs i \<le> tsc_diff tscs j" if "1 \<le> j" "j < i + 1" for j
  proof (cases "j = i")
    case True
    then show ?thesis by simp
  next
    case False
    with that have "j < i" by simp
    with assms(1) that(1) have "tsc_diff tscs best \<le> tsc_diff tscs j"
      by (simp add: least_upto_def)
    with True show ?thesis by simp
  qed
  moreover have "tsc_diff tscs i < tsc_diff tscs j" if "1 \<le> j" "j < i" for j
  proof -
    from assms(1) that have "tsc_diff tscs best \<le> tsc_diff tscs j"
      by (simp add: least_upto_def)
    with True show ?thesis by simp
  qed
  ultimately show ?thesis
    using True by (simp add: least_upto_def)
next
  case False
  have "tsc_diff tscs best \<le> tsc_diff tscs j" if "1 \<le> j" "j < i + 1" for j
  proof (cases "j = i")
    case True
    with False show ?thesis by simp
  next
    case False
    with that have "j < i" by simp
    with assms(1) that(1) show ?thesis
      by (simp add: least_upto_def)
  qed
  moreover have "tsc_diff tscs best < tsc_diff tscs j" if "1 \<le> j" "j < best" for j
    using assms(1) that by (simp add: least_upto_def)
  ultimately show ?thesis
    using False by (simp add: least_upto_def)
qed

lemma best_loop_least:
  "least_upto tscs i best \<Longrightarrow> best < i \<Longrightarrow> i \<le> N + 1 \<Longrightarrow>
   least_upto tscs (N + 1) (best_loop tscs i best)"
proof (induction tscs i best rule: best_loop.induct)
  case (1 tscs i best)
  show ?case
  proof (cases "i \<le> N")
    case True
    let ?b = "if tsc_diff tscs i < tsc_diff tscs best then i else best"
    have "least_upto tscs (i + 1) ?b"
      using "1.prems"(1,2) by (rule least_upto_step)
    moreover have "?b < i + 1" "i + 1 \<le> N + 1"
      using "1.prems" True by auto
    ultimately have "least_upto tscs (N + 1) (best_loop tscs (i + 1) ?b)"
      using "1.IH" [OF True] by blast
    with True show ?thesis
      by (subst best_loop.simps) simp
  next
    case False
    with "1.prems" have "i = N + 1" by simp
    with "1.prems"(1) False show ?thesis
      by (subst best_loop.simps) simp
  qed
qed

lemma least_upto_start: "least_upto tscs 2 1"
proof -
  have "tsc_diff tscs 1 \<le> tsc_diff tscs j" if "1 \<le> j" "j < 2" for j :: nat
  proof -
    from that have "j = 1" by simp
    then show ?thesis by simp
  qed
  then show ?thesis
    unfolding least_upto_def by simp
qed

lemma sync_best_range: "1 \<le> sync_best tscs \<and> sync_best tscs \<le> N"
  unfolding sync_best_def by (rule best_loop_range) (simp_all add: N_def)

lemma sync_best_least: "least_upto tscs (N + 1) (sync_best tscs)"
  unfolding sync_best_def by (rule best_loop_least [OF least_upto_start]) (simp_all add: N_def)

lemma drop_bit_1_u64: "drop_bit 1 (w :: u64) = w div 2"
  unfolding drop_bit_eq_div by simp

lemma unat_half_sum:
  fixes a b :: u64
  assumes "unat a + unat b < 2 ^ 64"
  shows "unat ((a + b) div 2) = (unat a + unat b) div 2"
proof -
  have "unat a + unat b < 2 ^ LENGTH(64)"
    using assms by simp
  then have "unat (a + b) = unat a + unat b"
    by (rule unat_add_lem [THEN iffD1])
  then show ?thesis
    by (simp add: unat_div)
qed

section \<open>Rounding\<close>

lemma pow2_powi: "pow2 k = 2 powi k"
  by (simp add: pow2_def power_int_def inverse_eq_divide power_one_over)

lemma pow2_pos: "0 < pow2 k"
  by (simp add: pow2_powi)

lemma pow2_add: "pow2 (a + b) = pow2 a * pow2 b"
  by (simp add: pow2_powi power_int_add)

lemma pow2_mono: "a \<le> b \<Longrightarrow> pow2 a \<le> pow2 b"
  by (simp add: pow2_powi power_int_increasing)

lemma pow2_less_iff: "pow2 a < pow2 b \<longleftrightarrow> a < b"
proof
  assume "pow2 a < pow2 b"
  show "a < b"
  proof (rule ccontr)
    assume "\<not> a < b"
    then have "pow2 b \<le> pow2 a" by (simp add: pow2_mono)
    with \<open>pow2 a < pow2 b\<close> show False by simp
  qed
next
  assume "a < b"
  then show "pow2 a < pow2 b"
    by (simp add: pow2_powi power_int_strict_increasing)
qed

lemma pow2_nat: "pow2 (int n) = 2 ^ n"
  by (simp add: pow2_def)

lemma pow2_0: "pow2 0 = 1"
  by (simp add: pow2_def)

lemma pow2_diff: "pow2 (a - b) = pow2 a / pow2 b"
proof -
  have "pow2 a = pow2 (a - b) * pow2 b"
    using pow2_add [of "a - b" b] by simp
  then show ?thesis
    using pow2_pos [of b] by simp
qed

lemma bitlen_pow2_bounds:
  assumes "0 < p"
  shows "pow2 (bitlen p - 1) \<le> of_int p" and "of_int p < pow2 (bitlen p)"
proof -
  from assms have b: "1 \<le> bitlen p"
    by (simp add: bitlen_alt_def)
  have "2 ^ nat (bitlen p - 1) \<le> p" "p < 2 ^ nat (bitlen p)"
    using bitlen_bounds [OF assms] by simp_all
  then have "(of_int (2 ^ nat (bitlen p - 1)) :: rat) \<le> of_int p"
    and "(of_int p :: rat) < of_int (2 ^ nat (bitlen p))"
    by (simp_all only: of_int_le_iff of_int_less_iff)
  then show "pow2 (bitlen p - 1) \<le> of_int p" and "of_int p < pow2 (bitlen p)"
    using b by (simp_all add: pow2_def)
qed

lemma ilog2_bounds:
  assumes "0 < m"
  shows "pow2 (ilog2 m) \<le> m" and "m < pow2 (ilog2 m + 1)"
proof -
  obtain p q where pq: "quotient_of m = (p, q)"
    by (cases "quotient_of m")
  then have q: "0 < q" and m: "m = of_int p / of_int q"
    by (simp_all add: quotient_of_denom_pos quotient_of_div)
  with assms have p: "0 < p"
    by (simp add: zero_less_divide_iff)
  define d where "d = bitlen p - bitlen q"
  have qr: "(0::rat) < of_int q" using q by simp
  have "of_int p < pow2 (bitlen p)" by (rule bitlen_pow2_bounds [OF p])
  moreover have "pow2 (bitlen q - 1) \<le> of_int q" by (rule bitlen_pow2_bounds [OF q])
  ultimately have "of_int p * pow2 (bitlen q - 1) < pow2 (bitlen p) * of_int q"
    using pow2_pos [of "bitlen q - 1"] qr
    by (meson mult_less_le_imp_less less_imp_le of_int_0_le_iff p less_le_not_le mult_strict_mono')
  then have "of_int p / of_int q < pow2 (bitlen p) / pow2 (bitlen q - 1)"
    using qr pow2_pos [of "bitlen q - 1"] by (simp add: field_simps)
  then have up: "m < pow2 (d + 1)"
    unfolding m d_def pow2_diff [symmetric] by (simp add: algebra_simps)
  have lo: "pow2 d \<le> m \<or> (pow2 (d - 1) \<le> m \<and> m < pow2 d)"
  proof -
    have "pow2 (bitlen p - 1) \<le> of_int p" by (rule bitlen_pow2_bounds [OF p])
    moreover have "of_int q < pow2 (bitlen q)" by (rule bitlen_pow2_bounds [OF q])
    ultimately have "pow2 (bitlen p - 1) * of_int q \<le> of_int p * pow2 (bitlen q)"
      using pow2_pos [of "bitlen p - 1"] qr p
      by (meson mult_mono less_imp_le of_int_0_le_iff)
    then have "pow2 (bitlen p - 1) / pow2 (bitlen q) \<le> of_int p / of_int q"
      using qr pow2_pos [of "bitlen q"] by (simp add: field_simps)
    then have "pow2 (d - 1) \<le> m"
      unfolding m d_def pow2_diff [symmetric] by (simp add: algebra_simps)
    then show ?thesis by linarith
  qed
  have il: "ilog2 m = (if pow2 d \<le> m then d else d - 1)"
    by (simp add: ilog2_def pq d_def Let_def)
  show "pow2 (ilog2 m) \<le> m"
    using lo by (auto simp: il)
  show "m < pow2 (ilog2 m + 1)"
    using lo up by (auto simp: il)
qed

lemma ilog2_eqI:
  assumes "pow2 e \<le> m" and "m < pow2 (e + 1)"
  shows "ilog2 m = e"
proof -
  have m: "0 < m" using assms(1) pow2_pos [of e] by simp
  note b = ilog2_bounds [OF m]
  have "pow2 e < pow2 (ilog2 m + 1)" using assms(1) b(2) by simp
  then have "e < ilog2 m + 1" by (simp only: pow2_less_iff)
  moreover have "pow2 (ilog2 m) < pow2 (e + 1)" using assms(2) b(1) by simp
  then have "ilog2 m < e + 1" by (simp only: pow2_less_iff)
  ultimately show ?thesis by simp
qed

lemma round_even_cases:
  "round_even x = \<lfloor>x\<rfloor> \<and> x - of_int \<lfloor>x\<rfloor> \<le> 1 / 2 \<or>
   round_even x = \<lfloor>x\<rfloor> + 1 \<and> 1 / 2 \<le> x - of_int \<lfloor>x\<rfloor>"
  by (simp add: round_even_def Let_def)

lemma round_even_err: "\<bar>of_int (round_even x) - x\<bar> \<le> 1 / 2"
proof -
  have "of_int \<lfloor>x\<rfloor> \<le> x" "x < of_int \<lfloor>x\<rfloor> + 1"
    by linarith+
  with round_even_cases [of x] show ?thesis
    by auto
qed

lemma round_even_of_int: "round_even (of_int n) = n"
  by (simp add: round_even_def)

lemma round_even_mono:
  assumes "x \<le> y"
  shows "round_even x \<le> round_even y"
proof (cases "\<lfloor>x\<rfloor> = \<lfloor>y\<rfloor>")
  case True
  with assms show ?thesis
    by (auto simp: round_even_def Let_def)
next
  case False
  with assms have "\<lfloor>x\<rfloor> + 1 \<le> \<lfloor>y\<rfloor>"
    using floor_mono [of x y] by simp
  moreover have "round_even x \<le> \<lfloor>x\<rfloor> + 1"
    using round_even_cases [of x] by auto
  moreover have "\<lfloor>y\<rfloor> \<le> round_even y"
    using round_even_cases [of y] by auto
  ultimately show ?thesis by simp
qed

lemma round_even_nonneg: "0 \<le> x \<Longrightarrow> 0 \<le> round_even x"
  using round_even_mono [of 0 x] round_even_of_int [of 0] by simp

text \<open>The exponent that fixes the spacing of the grid at \<open>m\<close>.\<close>

lemma quantum_pos: "0 < quantum m"
  by (simp add: quantum_def pow2_pos)

lemma ilog2_mono:
  assumes "0 < m" and "m \<le> m'"
  shows "ilog2 m \<le> ilog2 m'"
proof -
  have m': "0 < m'" using assms by simp
  have "pow2 (ilog2 m) \<le> m" by (rule ilog2_bounds [OF assms(1)])
  also note assms(2)
  also have "m' < pow2 (ilog2 m' + 1)" by (rule ilog2_bounds [OF m'])
  finally have "ilog2 m < ilog2 m' + 1" by (simp only: pow2_less_iff)
  then show ?thesis by simp
qed

lemma round_mag_nonneg: "0 \<le> m \<Longrightarrow> 0 \<le> round_mag m"
  using quantum_pos [of m] by (simp add: round_mag_def round_even_nonneg)

lemma round_mag_err:
  "\<bar>round_mag m - m\<bar> \<le> quantum m / 2"
proof (cases "m = 0")
  case True
  then show ?thesis using quantum_pos [of m] by (simp add: round_mag_def)
next
  case False
  let ?q = "quantum m"
  have q: "0 < ?q" by (rule quantum_pos)
  have "round_mag m - m = (of_int (round_even (m / ?q)) - m / ?q) * ?q"
    using False q by (simp add: round_mag_def algebra_simps)
  then have "\<bar>round_mag m - m\<bar> = \<bar>of_int (round_even (m / ?q)) - m / ?q\<bar> * ?q"
    using q by (simp add: abs_mult)
  also have "\<dots> \<le> (1 / 2) * ?q"
    using round_even_err [of "m / ?q"] q by (simp only: mult_le_cancel_right) simp
  finally show ?thesis by simp
qed

lemma round_mag_exact:
  assumes "m / quantum m = of_int k"
  shows "round_mag m = m"
proof -
  have "of_int k * quantum m = m"
    using assms quantum_pos [of m] by (simp add: field_simps)
  then show ?thesis
    by (simp add: round_mag_def assms round_even_of_int)
qed

text \<open>Between two powers of two the rounded magnitude stays between them.\<close>

lemma round_mag_ge_pow2:
  assumes "pow2 e \<le> m" and "- 1022 \<le> e"
  shows "pow2 e \<le> round_mag m"
proof -
  have m: "0 < m" using assms(1) pow2_pos [of e] by simp
  define E where "E = max (ilog2 m) (- 1022)"
  have q: "quantum m = pow2 (E - 52)" by (simp add: quantum_def E_def)
  have "pow2 e < pow2 (ilog2 m + 1)"
    using assms(1) ilog2_bounds(2) [OF m] by simp
  then have eE: "e \<le> E" by (simp add: pow2_less_iff E_def)
  have EE: "pow2 E \<le> m"
  proof (cases "ilog2 m \<le> - 1022")
    case True
    then have "E = - 1022" by (simp add: E_def)
    with assms eE have "e = E" by simp
    with assms(1) show ?thesis by simp
  next
    case False
    then have "E = ilog2 m" by (simp add: E_def)
    then show ?thesis using ilog2_bounds(1) [OF m] by simp
  qed
  have "pow2 52 = pow2 E / pow2 (E - 52)"
    using pow2_diff [of E "E - 52"] by simp
  also have "\<dots> \<le> m / pow2 (E - 52)"
    using EE pow2_pos [of "E - 52"] by (simp add: divide_right_mono)
  finally have "round_even (pow2 52) \<le> round_even (m / quantum m)"
    unfolding q by (rule round_even_mono)
  moreover have "pow2 52 = of_int (2 ^ 52)" by (simp add: pow2_def)
  ultimately have "2 ^ 52 \<le> round_even (m / quantum m)"
    by (simp only: round_even_of_int)
  then have "(of_int (2 ^ 52) :: rat) \<le> of_int (round_even (m / quantum m))"
    by (simp only: of_int_le_iff)
  then have "pow2 52 * quantum m \<le> of_int (round_even (m / quantum m)) * quantum m"
    using quantum_pos [of m] by (simp add: pow2_def)
  moreover have "pow2 52 * quantum m = pow2 E"
    unfolding q using pow2_add [of 52 "E - 52"] by simp
  ultimately have "pow2 E \<le> round_mag m"
    using m by (simp add: round_mag_def)
  with pow2_mono [OF eE] show ?thesis by simp
qed

lemma round_mag_le_pow2:
  assumes "0 \<le> m" and "m \<le> pow2 e" and "- 1022 \<le> e"
  shows "round_mag m \<le> pow2 e"
proof (cases "m = 0")
  case True
  then show ?thesis using pow2_pos [of e] by (simp add: round_mag_def)
next
  case False
  with assms have m: "0 < m" by simp
  define E where "E = max (ilog2 m) (- 1022)"
  have q: "quantum m = pow2 (E - 52)" by (simp add: quantum_def E_def)
  have "pow2 (ilog2 m) \<le> pow2 e"
    using assms(2) ilog2_bounds(1) [OF m] by simp
  then have "ilog2 m \<le> e"
    using pow2_less_iff [of e "ilog2 m"] by (simp add: not_less [symmetric])
  with assms(3) have eE: "E \<le> e" by (simp add: E_def)
  then have "0 \<le> e - E + 52" by simp
  then obtain n where n: "e - E + 52 = int n"
    using nonneg_int_cases by blast
  have "pow2 e / quantum m = pow2 (e - (E - 52))"
    unfolding q by (simp add: pow2_diff)
  also have "\<dots> = of_int (2 ^ n)"
    using n pow2_nat [of n] by (simp add: algebra_simps)
  finally have pe: "pow2 e / quantum m = of_int (2 ^ n)" .
  have "m / quantum m \<le> pow2 e / quantum m"
    using assms(2) quantum_pos [of m] by (simp add: divide_right_mono)
  then have "round_even (m / quantum m) \<le> round_even (pow2 e / quantum m)"
    by (rule round_even_mono)
  then have "round_even (m / quantum m) \<le> 2 ^ n"
    by (simp only: pe round_even_of_int)
  then have "(of_int (round_even (m / quantum m)) :: rat) \<le> of_int (2 ^ n)"
    by (simp only: of_int_le_iff)
  then have "of_int (round_even (m / quantum m)) * quantum m \<le> (pow2 e / quantum m) * quantum m"
    unfolding pe using quantum_pos [of m] by (simp only: mult_le_cancel_right) simp
  then show ?thesis
    using m quantum_pos [of m] by (simp add: round_mag_def)
qed

lemma round_mag_mono:
  assumes "0 \<le> m" and "m \<le> m'"
  shows "round_mag m \<le> round_mag m'"
proof (cases "m = 0")
  case True
  then show ?thesis using assms round_mag_nonneg [of m'] by (simp add: round_mag_def)
next
  case False
  with assms have m: "0 < m" and m': "0 < m'" by simp_all
  define E where "E = max (ilog2 m) (- 1022)"
  define E' where "E' = max (ilog2 m') (- 1022)"
  have EE': "E \<le> E'"
    using ilog2_mono [OF m assms(2)] by (simp add: E_def E'_def)
  show ?thesis
  proof (cases "E = E'")
    case True
    then have q: "quantum m' = quantum m" by (simp add: quantum_def E_def E'_def)
    have "m / quantum m \<le> m' / quantum m"
      using assms(2) quantum_pos [of m] by (simp add: divide_right_mono)
    then have "round_even (m / quantum m) \<le> round_even (m' / quantum m)"
      by (rule round_even_mono)
    then have "(of_int (round_even (m / quantum m)) :: rat) \<le> of_int (round_even (m' / quantum m))"
      by (simp only: of_int_le_iff)
    then show ?thesis
      using m m' quantum_pos [of m] by (simp add: round_mag_def q)
  next
    case False
    with EE' have lt: "E < E'" by simp
    then have E': "E' = ilog2 m'" and "- 1022 < E'"
      unfolding E_def E'_def by linarith+
    have "ilog2 m + 1 \<le> E'" using lt by (simp add: E_def)
    then have "pow2 (ilog2 m + 1) \<le> pow2 E'" by (rule pow2_mono)
    with ilog2_bounds(2) [OF m] have "m \<le> pow2 E'" by simp
    then have "round_mag m \<le> pow2 E'"
      using assms(1) \<open>- 1022 < E'\<close> by (intro round_mag_le_pow2) simp_all
    moreover have "pow2 E' \<le> round_mag m'"
      using ilog2_bounds(1) [OF m'] \<open>- 1022 < E'\<close> unfolding E' [symmetric]
      by (intro round_mag_ge_pow2) simp_all
    ultimately show ?thesis by simp
  qed
qed

lemma mk_double_exact:
  assumes "m / quantum m = of_int k" and "m < pow2 1024"
  shows "mk_double s m = Finite s m"
  using assms(2) by (simp add: mk_double_def round_mag_exact [OF assms(1)])

lemma quantum_eq:
  assumes "pow2 e \<le> m" and "m < pow2 (e + 1)" and "- 1022 \<le> e"
  shows "quantum m = pow2 (e - 52)"
  using assms(3) by (simp add: quantum_def ilog2_eqI [OF assms(1,2)])

text \<open>Integers up to \<open>2\<^sup>5\<^sup>3\<close> in magnitude are doubles.\<close>

lemma of_nat_on_grid:
  assumes "0 < n" and "n \<le> 2 ^ 53"
  shows "\<exists>k. (of_nat n :: rat) / quantum (of_nat n) = of_int k"
proof -
  let ?m = "of_nat n :: rat"
  have m: "0 < ?m" using assms(1) by simp
  define e where "e = ilog2 ?m"
  have b: "pow2 e \<le> ?m" "?m < pow2 (e + 1)"
    unfolding e_def by (rule ilog2_bounds [OF m])+
  have "pow2 0 \<le> ?m" using assms(1) by (simp add: pow2_def)
  with b(2) have "pow2 0 < pow2 (e + 1)" by simp
  then have e0: "0 \<le> e" by (simp add: pow2_less_iff)
  have "?m \<le> pow2 53"
    using assms(2) by (simp add: pow2_def)
  with b(1) have "pow2 e < pow2 54"
    using pow2_less_iff [of 53 54] by simp
  then have e53: "e \<le> 53" by (simp add: pow2_less_iff)
  have q: "quantum ?m = pow2 (e - 52)"
    using b e0 by (intro quantum_eq) simp_all
  show ?thesis
  proof (cases "e = 53")
    case True
    with b(1) \<open>?m \<le> pow2 53\<close> have "?m = pow2 53" by simp
    then have "?m / quantum ?m = of_int (2 ^ 52)"
      unfolding q True by (simp add: pow2_def)
    then show ?thesis ..
  next
    case False
    with e53 have "0 \<le> 52 - e" by simp
    then obtain j where j: "52 - e = int j"
      using nonneg_int_cases by blast
    have "?m / quantum ?m = ?m * pow2 (52 - e)"
      unfolding q using pow2_add [of "e - 52" "52 - e"] pow2_pos [of "e - 52"]
      by (simp add: pow2_0 field_simps)
    also have "\<dots> = of_int (int n * 2 ^ j)"
      unfolding j pow2_nat by simp
    finally show ?thesis ..
  qed
qed

lemma int_to_double_exact:
  assumes "\<bar>i\<bar> \<le> 2 ^ 53"
  shows "int_to_double i = Finite (i < 0) (of_int \<bar>i\<bar>)"
proof (cases "i = 0")
  case True
  then show ?thesis
    using pow2_pos [of 1024] by (simp add: int_to_double_def mk_double_def round_mag_def)
next
  case False
  define n where "n = nat \<bar>i\<bar>"
  have n: "0 < n" "n \<le> 2 ^ 53" and i: "(of_int \<bar>i\<bar> :: rat) = of_nat n"
    using False assms by (simp_all add: n_def nat_le_iff)
  obtain k where k: "(of_nat n :: rat) / quantum (of_nat n) = of_int k"
    using of_nat_on_grid [OF n] by blast
  have "(of_nat n :: rat) \<le> of_nat (2 ^ 53)"
    using n(2) by (simp only: of_nat_le_iff)
  also have "\<dots> < pow2 1024" by (simp add: pow2_def)
  finally have "mk_double (i < 0) (of_nat n) = Finite (i < 0) (of_nat n)"
    by (rule mk_double_exact [OF k])
  then show ?thesis
    unfolding int_to_double_def i .
qed

lemma int_to_double_0: "int_to_double 0 = Finite False 0"
  using int_to_double_exact [of 0] by simp

lemma round_mag_lt_pow2_1024:
  assumes "0 \<le> m" and "m \<le> pow2 1023"
  shows "round_mag m < pow2 1024"
proof -
  have "round_mag m \<le> pow2 1023"
    using assms by (rule round_mag_le_pow2) simp
  also have "pow2 1023 < pow2 1024" by (simp add: pow2_less_iff)
  finally show ?thesis .
qed

lemma mk_double_finite:
  assumes "0 \<le> m" and "m \<le> pow2 1023"
  shows "mk_double s m = Finite s (round_mag m)"
  using round_mag_lt_pow2_1024 [OF assms] by (simp add: mk_double_def)

text \<open>Rounding a magnitude whose binary exponent \<open>e\<close> is known.\<close>

lemma mk_double_eval:
  assumes "pow2 e \<le> m" and "m < pow2 (e + 1)" and "- 1022 \<le> e" and "e < 1023"
  shows "mk_double s m = Finite s (of_int (round_even (m / pow2 (e - 52))) * pow2 (e - 52))"
proof -
  have m: "0 < m" using assms(1) pow2_pos [of e] by simp
  have "pow2 (e + 1) \<le> pow2 1023" using assms(4) by (intro pow2_mono) simp
  with assms(2) have "m \<le> pow2 1023" by simp
  with m have "mk_double s m = Finite s (round_mag m)"
    by (intro mk_double_finite) simp_all
  then show ?thesis
    using m by (simp add: round_mag_def quantum_eq [OF assms(1,2,3)])
qed

lemma round_even_frac:
  assumes "0 < b"
  shows "round_even (of_int a / of_int b) =
     (if 2 * (a mod b) < b then a div b
      else if b < 2 * (a mod b) then a div b + 1
      else if even (a div b) then a div b else a div b + 1)"
proof -
  have f: "\<lfloor>(of_int a :: rat) / of_int b\<rfloor> = a div b"
    by (rule floor_divide_of_int_eq)
  have "a = a div b * b + a mod b"
    by simp
  then have "(of_int a :: rat) = of_int (a div b * b + a mod b)"
    by (simp only:)
  then have e: "(of_int a :: rat) = of_int (a div b) * of_int b + of_int (a mod b)"
    by (simp only: of_int_add of_int_mult)
  have "(of_int a :: rat) / of_int b = of_int (a div b) + of_int (a mod b) / of_int b"
    by (subst e) (use assms in \<open>simp add: add_divide_distrib\<close>)
  then have r: "(of_int a :: rat) / of_int b - of_int (a div b) = of_int (a mod b) / of_int b"
    by simp
  have lt: "of_int (a mod b) / (of_int b :: rat) < 1 / 2 \<longleftrightarrow> 2 * (a mod b) < b"
  proof -
    have "of_int (a mod b) / (of_int b :: rat) < 1 / 2 \<longleftrightarrow>
        (of_int (2 * (a mod b)) :: rat) < of_int b"
      using assms by (simp add: field_simps)
    then show ?thesis by (simp only: of_int_less_iff)
  qed
  have gt: "1 / 2 < of_int (a mod b) / (of_int b :: rat) \<longleftrightarrow> b < 2 * (a mod b)"
  proof -
    have "1 / 2 < of_int (a mod b) / (of_int b :: rat) \<longleftrightarrow>
        (of_int b :: rat) < of_int (2 * (a mod b))"
      using assms by (simp add: field_simps)
    then show ?thesis by (simp only: of_int_less_iff)
  qed
  show ?thesis
    unfolding round_even_def Let_def f r lt gt by (rule refl)
qed

lemma round_even_numeral_frac:
  "round_even (numeral a / numeral b) =
     (if 2 * (numeral a mod numeral b) < (numeral b :: int) then numeral a div numeral b
      else if (numeral b :: int) < 2 * (numeral a mod numeral b) then numeral a div numeral b + 1
      else if even (numeral a div numeral b :: int) then numeral a div numeral b
      else numeral a div numeral b + 1)"
  using round_even_frac [of "numeral b" "numeral a"] by simp

lemma round_even_numeral: "round_even (numeral a) = numeral a"
  using round_even_of_int [of "numeral a"] by simp

lemma floor_numeral_frac: "\<lfloor>numeral a / numeral b :: rat\<rfloor> = numeral a div numeral b"
  using floor_divide_of_int_eq [of "numeral a" "numeral b", where ?'a = rat] by simp

lemmas double_eval = pow2_def round_even_numeral_frac round_even_numeral floor_numeral_frac

section \<open>The members\<close>

lemma syncTime_fst: "fst (syncTime tscs nses) = drop_bit 1 (tscs (sync_best tscs) + tscs (sync_best tscs - 1))"
  by (simp add: syncTime_def Let_def)

lemma syncTime_snd: "snd (syncTime tscs nses) = nses (sync_best tscs)"
  by (simp add: syncTime_def Let_def)


lemma offset_after_calibrate:
  "ns_offset (snd (calibrate c tscs nses)) =
     base_ns c - scaled (tsc_ghz_inv (snd (calibrate c tscs nses))) (base_tsc c)"
  by (simp add: calibrate_def adjustOffset_def Let_def split: prod.splits)

lemma uint_add_sint:
  fixes a b :: u64
  assumes "0 \<le> sint a + sint b"
  shows "uint (a + b) = sint a + sint b"
proof -
  have "sint a < 2 ^ 63" "sint b < 2 ^ 63"
    using sint_lt [of a] sint_lt [of b] by simp_all
  then have lt: "sint a + sint b < 2 ^ 64" by simp
  have "a + b = word_of_int (sint a + sint b)"
    by simp
  then have "uint (a + b) = (sint a + sint b) mod 2 ^ 64"
    by (simp only: uint_word_of_int) simp
  then show ?thesis
    using assms lt by simp
qed

lemma sync_best_jitter: "sync_best jitter_tscs = 4"
  by (simp add: sync_best_def best_loop.simps N_def tsc_diff_def jitter_tscs_def)

lemma sync_best_steady: "sync_best (steady v) = 1"
  by (simp add: sync_best_def best_loop.simps N_def tsc_diff_def steady_def)

lemma syncTime_steady:
  "unat v < 2 ^ 63 \<Longrightarrow> syncTime (steady v) (steady w) = (v, w)"
proof -
  assume "unat v < 2 ^ 63"
  then have "unat v + unat v < 2 ^ 64" by simp
  then have "unat ((v + v) div 2) = (unat v + unat v) div 2"
    by (rule unat_half_sum)
  then have "unat ((v + v) div 2) = unat v" by simp
  then have h: "(v + v) div 2 = v" by (simp only: word_unat_eq_iff)
  show ?thesis
    unfolding syncTime_def Let_def sync_best_steady steady_def drop_bit_1_u64 h by (rule refl)
qed

lemma late1: "scaled (Finite False (1 / 2)) 3000000000000 = 1500000000000"
  by (simp add: scaled_def int_to_double_exact mk_double_eval [where e = 40] double_eval)
lemma late2: "scaled (Finite False (1 / 2)) 4000000000000 = 2000000000000"
  by (simp add: scaled_def int_to_double_exact mk_double_eval [where e = 40] double_eval)


lemma init_nonpos:
  "dle_zero g \<Longrightarrow> init c g tscs nses =
     c\<lparr>base_tsc := fst (syncTime tscs nses), base_ns := snd (syncTime tscs nses)\<rparr>"
  by (simp add: init_def Let_def split: prod.splits)

lemma init_pos:
  "\<not> dle_zero g \<Longrightarrow> tsc_ghz_inv (init c g tscs nses) = ddiv d_one g"
  by (simp add: init_def adjustOffset_def Let_def split: prod.splits)

lemma ddiv_one_two: "ddiv d_one d_two = Finite False (1 / 2)"
proof -
  have "pow2 (- 1) \<le> 1 / 2" "(1 / 2 :: rat) < pow2 (- 1 + 1)"
    by (simp_all add: pow2_def)
  then have "ilog2 (1 / 2) = - 1" by (rule ilog2_eqI)
  then have q: "quantum (1 / 2) = pow2 (- 53)" by (simp add: quantum_def)
  have "(1 / 2) / quantum (1 / 2) = of_int (2 ^ 52)"
    unfolding q by (simp add: pow2_def)
  then have "round_mag (1 / 2) = 1 / 2" by (rule round_mag_exact)
  then show ?thesis
    by (simp add: d_one_def d_two_def mk_double_def pow2_def)
qed

lemma late_off:
  "ns_offset late_counter = - 1499000000000"
  "tsc_ghz_inv late_counter = Finite False (1 / 2)"
proof -
  have p: "\<not> dle_zero d_two" by (simp add: d_two_def)
  show g: "tsc_ghz_inv late_counter = Finite False (1 / 2)"
    unfolding late_counter_def init_pos [OF p] by (rule ddiv_one_two)
  have s: "syncTime (steady 3000000000000) (steady 1000000000) = (3000000000000, 1000000000)"
    by (rule syncTime_steady) simp
  show "ns_offset late_counter = - 1499000000000"
    unfolding late_counter_def init_def s
    using p by (simp add: adjustOffset_def ddiv_one_two late1)
qed

lemma sint_word_of_int_u64:
  assumes "- (2 ^ 63) \<le> i" and "i < 2 ^ 63"
  shows "sint (word_of_int i :: u64) = i"
proof -
  have "sint (word_of_int i :: u64) = signed_take_bit 63 i"
    by (simp add: sint_sbintrunc')
  also have "\<dots> = i"
    using assms by (rule signed_take_bit_int_eq_self)
  finally show ?thesis .
qed

lemma sint_small_u64:
  fixes w :: u64
  assumes "uint w < 2 ^ 63"
  shows "sint w = uint w"
proof -
  have "- (2 ^ 63) \<le> (0::int)" by simp
  also have "0 \<le> uint w" by simp
  finally have "- (2 ^ 63) \<le> uint w" .
  then have "sint (word_of_int (uint w) :: u64) = uint w"
    using assms by (rule sint_word_of_int_u64)
  then show ?thesis by simp
qed

lemma syncTime_fst_div:
  "fst (syncTime tscs nses) = (tscs (sync_best tscs) + tscs (sync_best tscs - 1)) div 2"
  unfolding syncTime_def Let_def fst_conv drop_bit_1_u64 by (rule refl)



lemma calibrate_tsc_ghz_inv:
  "tsc_ghz_inv (snd (calibrate c tscs nses)) =
     ddiv (int_to_double (sint (snd (syncTime tscs nses) - base_ns c)))
          (int_to_double (sint (fst (syncTime tscs nses) - base_tsc c)))"
  by (simp add: calibrate_def adjustOffset_def Let_def split: prod.splits)

lemma calibrate_result_eq:
  "fst (calibrate c tscs nses) = ddiv d_one (tsc_ghz_inv (snd (calibrate c tscs nses)))"
  by (simp add: calibrate_def adjustOffset_def Let_def split: prod.splits)

lemma init_zero_steady:
  "unat v < 2 ^ 63 \<Longrightarrow>
   init new_TSCNS d_zero (steady v) (steady w) =
     \<lparr>tsc_ghz_inv = d_one, ns_offset = 0, base_tsc = v, base_ns = w\<rparr>"
  by (simp add: init_nonpos d_zero_def syncTime_steady new_TSCNS_def)

lemma third_double: "mk_double False (1 / 3) = Finite False (6004799503160661 / 18014398509481984)"
  by (simp add: mk_double_eval [where e = "- 2"] double_eval)

lemma ddiv_1e9_3e9:
  "ddiv (int_to_double 1000000000) (int_to_double 3000000000) = mk_double False (1 / 3)"
  by (simp add: int_to_double_exact)

lemma ddiv_one_third:
  "ddiv d_one (Finite False (6004799503160661 / 18014398509481984)) = Finite False 3"
  by (simp add: d_one_def mk_double_eval [where e = 1] double_eval)

lemma sint_abs_u64: "\<bar>sint (w :: u64)\<bar> \<le> 2 ^ 63"
  using sint_ge [of w] sint_lt [of w] by simp

lemma int_to_double_finite:
  assumes "\<bar>i\<bar> \<le> 2 ^ 63"
  shows "int_to_double i = Finite (i < 0) (round_mag (of_int \<bar>i\<bar>))"
proof -
  have "(of_int \<bar>i\<bar> :: rat) \<le> of_int (2 ^ 63)"
    using assms by (simp only: of_int_le_iff)
  also have "\<dots> \<le> pow2 1023" by (simp add: pow2_def)
  finally show ?thesis
    unfolding int_to_double_def by (intro mk_double_finite) simp_all
qed

lemma double_to_int64_trunc:
  assumes "0 \<le> m"
  shows "double_to_int64 (Finite s m) =
     (if - (2 ^ 63) \<le> trunc_zero (valof (Finite s m)) \<and> trunc_zero (valof (Finite s m)) < 2 ^ 63
      then word_of_int (trunc_zero (valof (Finite s m))) else int64_indefinite)"
proof -
  have "trunc_zero (valof (Finite s m)) = (if s then - \<lfloor>m\<rfloor> else \<lfloor>m\<rfloor>)"
    using assms by (auto simp: trunc_zero_def)
  then show ?thesis
    by (simp add: Let_def)
qed

lemma valof_mk_double:
  assumes "is_finite (mk_double s m)"
  shows "valof (mk_double s m) = (if s then - round_mag m else round_mag m)"
  using assms by (simp add: mk_double_def Let_def split: if_splits)

lemma is_finite_mk_double:
  assumes "is_finite (mk_double s m)"
  shows "mk_double s m = Finite s (round_mag m)"
  using assms by (simp add: mk_double_def Let_def split: if_splits)


lemma dmul_int_finite:
  "dmul (int_to_double (sint (tsc :: u64))) (Finite t g) =
     mk_double ((sint tsc < 0) \<noteq> t) (round_mag (of_int \<bar>sint tsc\<bar>) * g)"
  by (simp add: int_to_double_finite [OF sint_abs_u64])

lemma rnd_signed:
  assumes "0 \<le> a" and "0 \<le> g"
  shows "rnd ((if s then - a else a) * (if t then - g else g)) =
     (if s \<noteq> t then - round_mag (a * g) else round_mag (a * g))"
proof (cases "a * g = 0")
  case True
  then show ?thesis by (auto simp: rnd_def round_mag_def)
next
  case False
  with assms have "0 < a * g" by (simp add: zero_less_mult_iff less_le)
  then show ?thesis
    by (auto simp: rnd_def abs_mult sgn_if mult_less_0_iff zero_less_mult_iff)
qed

lemma three_quarter_clock_fields:
  "tsc_ghz_inv three_quarter_clock = Finite False (3 / 4)"
  "ns_offset three_quarter_clock = 4250"
proof -
  have s: "mk_double False (3 / 4) = Finite False (3 / 4)"
    by (simp add: mk_double_eval [where e = "- 1"] double_eval)
  show g: "tsc_ghz_inv three_quarter_clock = Finite False (3 / 4)"
    unfolding three_quarter_clock_def calibrate_tsc_ghz_inv
    by (simp add: init_zero_steady syncTime_steady int_to_double_exact s)
  have "scaled (Finite False (3 / 4)) 1000 = 750"
    by (simp add: scaled_def int_to_double_exact mk_double_eval [where e = 9] double_eval)
  then show "ns_offset three_quarter_clock = 4250"
    using offset_after_calibrate [of "init new_TSCNS d_zero (steady 1000) (steady 5000)"
        "steady 4000001000" "steady 3000005000"]
    unfolding three_quarter_clock_def [symmetric] g
    by (simp add: init_zero_steady)
qed

lemma three_quarter_product:
  "dmul (int_to_double 1001) (Finite False (3 / 4)) = Finite False (3003 / 4)"
  by (simp add: int_to_double_exact mk_double_eval [where e = 9] double_eval)

lemma sint_nonneg_u64:
  fixes w :: u64
  assumes "uint w < 2 ^ 63"
  shows "sint w = uint w" and "0 \<le> sint w" and "\<bar>sint w\<bar> = uint w"
proof -
  show s: "sint w = uint w" using assms by (rule sint_small_u64)
  show "0 \<le> sint w" unfolding s by simp
  then show "\<bar>sint w\<bar> = uint w" unfolding s by simp
qed

lemma round_mag_uint_nonneg: "0 \<le> round_mag (of_int (uint (t :: u64)))"
proof -
  have "(0::rat) \<le> of_int (uint t)" by (rule of_int_nonneg) simp
  then show ?thesis by (rule round_mag_nonneg)
qed

lemma dmul_uint_finite:
  fixes t :: u64
  assumes "uint t < 2 ^ 63"
  shows "dmul (int_to_double (sint t)) (Finite False g) =
     mk_double False (round_mag (of_int (uint t)) * g)"
proof -
  have a: "\<bar>sint t\<bar> = uint t" and "0 \<le> sint t"
    using assms by (rule sint_nonneg_u64)+
  then have b: "((sint t < 0) \<noteq> False) = False" by simp
  show ?thesis
    unfolding dmul_int_finite a b by (rule refl)
qed

lemma round_mag_uint_mult_nonneg: "0 \<le> g \<Longrightarrow> 0 \<le> round_mag (of_int (uint (t :: u64))) * g"
  using round_mag_uint_nonneg by (rule mult_nonneg_nonneg)

text \<open>The scaled tick value for a non-negative tick count and a non-negative scale.\<close>

lemma scaled_nonneg:
  fixes t :: u64
  assumes g: "0 \<le> g" and t: "uint t < 2 ^ 63"
    and r: "round_mag (round_mag (of_int (uint t)) * g) < 2 ^ 63"
  shows "scaled (Finite False g) t = word_of_int \<lfloor>round_mag (round_mag (of_int (uint t)) * g)\<rfloor>"
    and "sint (scaled (Finite False g) t) = \<lfloor>round_mag (round_mag (of_int (uint t)) * g)\<rfloor>"
    and "0 \<le> sint (scaled (Finite False g) t)"
proof -
  let ?m = "round_mag (of_int (uint t)) * g"
  have m: "0 \<le> ?m" using g by (rule round_mag_uint_mult_nonneg)
  then have rm: "0 \<le> round_mag ?m" by (rule round_mag_nonneg)
  have "round_mag ?m < pow2 1024"
    using r by (simp add: pow2_def)
  then have p: "dmul (int_to_double (sint t)) (Finite False g) = Finite False (round_mag ?m)"
    unfolding dmul_uint_finite [OF t] mk_double_def Let_def by (simp only: not_le [symmetric] if_False)
  have f0: "0 \<le> \<lfloor>round_mag ?m\<rfloor>" using rm by simp
  have "\<lfloor>round_mag ?m\<rfloor> < 2 ^ 63"
    using r by (simp add: floor_less_iff)
  with f0 show e: "scaled (Finite False g) t = word_of_int \<lfloor>round_mag ?m\<rfloor>"
    unfolding scaled_def p by (simp add: Let_def)
  have "- (2 ^ 63) \<le> (0::int)" by simp
  then have "- (2 ^ 63) \<le> \<lfloor>round_mag ?m\<rfloor>" using f0 by (rule order_trans)
  then show s: "sint (scaled (Finite False g) t) = \<lfloor>round_mag ?m\<rfloor>"
    unfolding e using \<open>\<lfloor>round_mag ?m\<rfloor> < 2 ^ 63\<close> by (rule sint_word_of_int_u64)
  show "0 \<le> sint (scaled (Finite False g) t)"
    unfolding s by (rule f0)
qed

lemma in_int64_nonneg:
  fixes t :: u64
  assumes g: "0 \<le> g" and t: "uint t < 2 ^ 63"
    and i: "in_int64 (dmul (int_to_double (sint t)) (Finite False g))"
  shows "round_mag (round_mag (of_int (uint t)) * g) < 2 ^ 63"
proof -
  let ?m = "round_mag (of_int (uint t)) * g"
  have m: "0 \<le> ?m" using g by (rule round_mag_uint_mult_nonneg)
  then have rm: "0 \<le> round_mag ?m" by (rule round_mag_nonneg)
  have p: "dmul (int_to_double (sint t)) (Finite False g) = mk_double False ?m"
    by (rule dmul_uint_finite [OF t])
  from i have "is_finite (mk_double False ?m)"
    unfolding p in_int64_def by simp
  then have f: "mk_double False ?m = Finite False (round_mag ?m)"
    by (rule is_finite_mk_double)
  from i have "trunc_zero (round_mag ?m) < 2 ^ 63"
    unfolding p f in_int64_def by simp
  then have "\<lfloor>round_mag ?m\<rfloor> < 2 ^ 63"
    using rm by (simp add: trunc_zero_def)
  then show ?thesis
    by (simp add: floor_less_iff)
qed

lemma scaled_mono:
  fixes a b :: u64
  assumes g: "0 \<le> g" and ab: "a \<le> b" and b: "uint b < 2 ^ 63"
    and r: "round_mag (round_mag (of_int (uint b)) * g) < 2 ^ 63"
  shows "round_mag (round_mag (of_int (uint a)) * g) \<le> round_mag (round_mag (of_int (uint b)) * g)"
proof -
  have "uint a \<le> uint b" using ab by (simp add: word_le_def)
  then have "(of_int (uint a) :: rat) \<le> of_int (uint b)" by (simp only: of_int_le_iff)
  moreover have "(0::rat) \<le> of_int (uint a)" by (rule of_int_nonneg) simp
  ultimately have "round_mag (of_int (uint a)) \<le> round_mag (of_int (uint b))"
    by (intro round_mag_mono)
  then have "round_mag (of_int (uint a)) * g \<le> round_mag (of_int (uint b)) * g"
    using g by (rule mult_right_mono)
  with round_mag_uint_mult_nonneg [OF g] show ?thesis
    by (rule round_mag_mono)
qed

lemma backward_clock_fields:
  "tsc_ghz_inv backward_clock = Finite True (1 / 2)"
  "ns_offset backward_clock = 5000000500"
proof -
  have s: "mk_double True (1 / 2) = Finite True (1 / 2)"
    by (simp add: mk_double_eval [where e = "- 1"] double_eval)
  show g: "tsc_ghz_inv backward_clock = Finite True (1 / 2)"
    unfolding backward_clock_def calibrate_tsc_ghz_inv
    by (simp add: init_zero_steady syncTime_steady int_to_double_exact s)
  have "scaled (Finite True (1 / 2)) 1000 = - 500"
    by (simp add: scaled_def int_to_double_exact mk_double_eval [where e = 8] double_eval)
  then show "ns_offset backward_clock = 5000000500"
    using offset_after_calibrate [of "init new_TSCNS d_zero (steady 1000) (steady 5000000000)"
        "steady 2000001000" "steady 4000000000"]
    unfolding backward_clock_def [symmetric] g
    by (simp add: init_zero_steady)
qed

lemma backward_clock_scaled:
  "scaled (Finite True (1 / 2)) 2000 = - 1000"
  "scaled (Finite True (1 / 2)) 4000 = - 2000"
  by (simp_all add: scaled_def int_to_double_exact mk_double_eval [where e = 9]
      mk_double_eval [where e = 10] double_eval)

lemma late_product:
  "dmul (int_to_double (sint (4000000000000 :: u64))) (Finite False (1 / 2)) =
     Finite False 2000000000000"
  by (simp add: int_to_double_exact mk_double_eval [where e = 40] double_eval)

lemma quantum_le_one:
  assumes "0 < x" and "x < 2 ^ 53"
  shows "quantum x \<le> 1"
proof -
  have "pow2 (ilog2 x) \<le> x" by (rule ilog2_bounds [OF assms(1)])
  also have "x < pow2 53" using assms(2) by (simp add: pow2_def)
  finally have "ilog2 x < 53" by (simp only: pow2_less_iff)
  then have "max (ilog2 x) (- 1022) - 52 \<le> 0" by simp
  then have "pow2 (max (ilog2 x) (- 1022) - 52) \<le> pow2 0" by (rule pow2_mono)
  then show ?thesis by (simp add: quantum_def pow2_0)
qed

lemma round_mag_err_half:
  assumes "0 \<le> x" and "x < 2 ^ 53"
  shows "\<bar>round_mag x - x\<bar> \<le> 1 / 2"
proof (cases "x = 0")
  case True
  then show ?thesis by (simp add: round_mag_def)
next
  case False
  with assms(1) have "0 < x" by simp
  then have "quantum x / 2 \<le> 1 / 2"
    using quantum_le_one [OF _ assms(2)] by simp
  with round_mag_err [of x] show ?thesis by simp
qed

lemma round_mag_uint_exact:
  fixes t :: u64
  assumes "uint t < 2 ^ 53"
  shows "round_mag (of_int (uint t)) = of_int (uint t)"
proof -
  have a: "\<bar>uint t\<bar> = uint t" by simp
  have "\<bar>uint t\<bar> \<le> 2 ^ 53" "\<bar>uint t\<bar> \<le> 2 ^ 63"
    using assms by simp_all
  then have "Finite (uint t < 0) (of_int \<bar>uint t\<bar>) =
      Finite (uint t < 0) (round_mag (of_int \<bar>uint t\<bar>))"
    using int_to_double_exact [of "uint t"] int_to_double_finite [of "uint t"] by simp
  then have "(of_int \<bar>uint t\<bar> :: rat) = round_mag (of_int \<bar>uint t\<bar>)"
    by (simp only: double.inject)
  then show ?thesis
    unfolding a by (rule sym)
qed

lemma floor_diff_bound:
  fixes ra rb xa xb :: rat
  assumes "\<bar>ra - xa\<bar> \<le> 1 / 2" and "\<bar>rb - xb\<bar> \<le> 1 / 2"
  shows "\<bar>of_int (\<lfloor>rb\<rfloor> - \<lfloor>ra\<rfloor>) - (xb - xa)\<bar> < 2"
proof -
  have f: "of_int \<lfloor>ra\<rfloor> \<le> ra" "ra < of_int \<lfloor>ra\<rfloor> + 1"
    "of_int \<lfloor>rb\<rfloor> \<le> rb" "rb < of_int \<lfloor>rb\<rfloor> + 1"
    by linarith+
  have e: "ra - xa \<le> 1 / 2" "- (ra - xa) \<le> 1 / 2" "rb - xb \<le> 1 / 2" "- (rb - xb) \<le> 1 / 2"
    using assms by (simp_all only: abs_le_iff)
  have "of_int \<lfloor>rb\<rfloor> - of_int \<lfloor>ra\<rfloor> - (xb - xa) < 2"
    using f e by linarith
  moreover have "- (of_int \<lfloor>rb\<rfloor> - of_int \<lfloor>ra\<rfloor> - (xb - xa)) < 2"
    using f e by linarith
  ultimately have "\<bar>of_int \<lfloor>rb\<rfloor> - of_int \<lfloor>ra\<rfloor> - (xb - xa)\<bar> < 2"
    by (simp only: abs_less_iff simp_thms)
  then show ?thesis
    by (simp only: of_int_diff)
qed

lemma ghz3_scaled:
  "scaled (Finite False (6004799503160661 / 18014398509481984)) 1000000000 = 333333333"
  "scaled (Finite False (6004799503160661 / 18014398509481984)) 4000000000 = 1333333333"
  by (simp_all add: scaled_def int_to_double_exact mk_double_eval [where e = 28]
      mk_double_eval [where e = 30] double_eval)

lemma ghz3_clock_fields:
  "tsc_ghz_inv ghz3_clock = Finite False (6004799503160661 / 18014398509481984)"
  "ns_offset ghz3_clock = 4666666667"
proof -
  show g: "tsc_ghz_inv ghz3_clock = Finite False (6004799503160661 / 18014398509481984)"
    unfolding ghz3_clock_def calibrate_tsc_ghz_inv
    by (simp add: init_zero_steady syncTime_steady ddiv_1e9_3e9 third_double)
  show "ns_offset ghz3_clock = 4666666667"
    using offset_after_calibrate [of "init new_TSCNS d_zero (steady 1000000000) (steady 5000000000)"
        "steady 4000000000" "steady 6000000000"]
    unfolding ghz3_clock_def [symmetric] g
    by (simp add: init_zero_steady ghz3_scaled)
qed

lemma ghz3_scaled_large:
  "scaled (Finite False (6004799503160661 / 18014398509481984)) 72057594037927936 = 24019198012642644"
  "scaled (Finite False (6004799503160661 / 18014398509481984)) 72057594037927944 = 24019198012642644"
  by (simp_all add: scaled_def int_to_double_def mk_double_eval [where e = 56]
      mk_double_eval [where e = 54] double_eval)

lemma round_mag_rel_err:
  assumes "pow2 (- 1022) \<le> m"
  shows "\<bar>round_mag m - m\<bar> \<le> m / 2 ^ 53"
proof -
  have m: "0 < m" using assms pow2_pos [of "- 1022"] by simp
  have "pow2 (- 1022) < pow2 (ilog2 m + 1)"
    using assms ilog2_bounds(2) [OF m] by simp
  then have e: "- 1022 \<le> ilog2 m" by (simp add: pow2_less_iff)
  then have "quantum m = pow2 (ilog2 m - 52)" by (simp add: quantum_def)
  also have "\<dots> = pow2 (ilog2 m) / 2 ^ 52"
    unfolding pow2_diff by (simp add: pow2_def)
  also have "\<dots> \<le> m / 2 ^ 52"
    using ilog2_bounds(1) [OF m] by (simp add: divide_right_mono)
  finally have "quantum m / 2 \<le> m / 2 ^ 53" by simp
  with round_mag_err [of m] show ?thesis by simp
qed

lemma recip_in_range:
  assumes "pow2 (- 1022) \<le> x" and "x \<le> pow2 1022"
  shows "pow2 (- 1022) \<le> 1 / x" and "1 / x \<le> pow2 1022"
proof -
  have x: "0 < x" using assms(1) pow2_pos [of "- 1022"] by simp
  have i: "1 / pow2 1022 = pow2 (- 1022)" "1 / pow2 (- 1022) = pow2 1022"
    by (simp_all add: pow2_def)
  have "1 / pow2 1022 \<le> 1 / x"
    using assms(2) x by (simp add: frac_le)
  then show "pow2 (- 1022) \<le> 1 / x" unfolding i .
  have "1 / x \<le> 1 / pow2 (- 1022)"
    using assms(1) pow2_pos [of "- 1022"] by (simp add: frac_le)
  then show "1 / x \<le> pow2 1022" unfolding i .
qed

lemma round_mag_in_range:
  assumes "pow2 (- 1022) \<le> m" and "m \<le> pow2 1022"
  shows "pow2 (- 1022) \<le> round_mag m" and "round_mag m \<le> pow2 1022"
proof -
  show "pow2 (- 1022) \<le> round_mag m"
    using assms(1) by (rule round_mag_ge_pow2) simp
  have "0 \<le> m" using assms(1) pow2_pos [of "- 1022"] by simp
  then show "round_mag m \<le> pow2 1022"
    using assms(2) by (rule round_mag_le_pow2) simp
qed

lemma ddiv_one_finite:
  assumes "pow2 (- 1022) \<le> x" and "x \<le> pow2 1022"
  shows "ddiv d_one (Finite False x) = Finite False (round_mag (1 / x))"
proof -
  have x: "x \<noteq> 0" using assms(1) pow2_pos [of "- 1022"] by simp
  have "0 \<le> 1 / x" using assms(1) pow2_pos [of "- 1022"] by simp
  moreover have "1 / x \<le> pow2 1023"
    using recip_in_range(2) [OF assms] pow2_mono [of 1022 1023] by simp
  ultimately have "mk_double False (1 / x) = Finite False (round_mag (1 / x))"
    by (rule mk_double_finite)
  then show ?thesis
    using x by (simp add: d_one_def)
qed

text \<open>Taking the reciprocal twice, rounding each time.\<close>

lemma recip_twice_err:
  fixes x y z :: rat
  assumes x: "0 < x" and y: "0 < y"
    and ey: "\<bar>y - 1 / x\<bar> \<le> (1 / x) / 2 ^ 53"
    and ez: "\<bar>z - 1 / y\<bar> \<le> (1 / y) / 2 ^ 53"
  shows "\<bar>z - x\<bar> \<le> x / 2 ^ 51"
proof -
  define u :: rat where "u = 1 / 2 ^ 53"
  have u: "0 < u" "u \<le> 1 / 2" by (simp_all add: u_def)
  have "\<bar>y - 1 / x\<bar> * x \<le> ((1 / x) / 2 ^ 53) * x"
    using ey x by (simp only: mult_le_cancel_right) simp
  then have "\<bar>(y - 1 / x) * x\<bar> \<le> u"
    using x by (simp add: abs_mult u_def)
  then have yx: "\<bar>y * x - 1\<bar> \<le> u"
    using x by (simp add: algebra_simps)
  have "\<bar>z - 1 / y\<bar> * y \<le> ((1 / y) / 2 ^ 53) * y"
    using ez y by (simp only: mult_le_cancel_right) simp
  then have "\<bar>(z - 1 / y) * y\<bar> \<le> u"
    using y by (simp add: abs_mult u_def)
  then have zy: "\<bar>z * y - 1\<bar> \<le> u"
    using y by (simp add: algebra_simps)
  have "\<bar>(z - x) * y\<bar> = \<bar>(z * y - 1) - (y * x - 1)\<bar>"
    by (simp add: algebra_simps)
  also have "\<dots> \<le> \<bar>z * y - 1\<bar> + \<bar>y * x - 1\<bar>"
    by (rule abs_triangle_ineq4)
  also have "\<dots> \<le> 2 * u" using yx zy by simp
  finally have d: "\<bar>z - x\<bar> * y \<le> 2 * u"
    using y by (simp add: abs_mult)
  have "1 - u \<le> y * x" using yx by (simp add: abs_le_iff)
  with u have "1 / 2 \<le> y * x" by simp
  then have "\<bar>z - x\<bar> * (1 / 2) \<le> \<bar>z - x\<bar> * (y * x)"
    by (intro mult_left_mono) simp_all
  also have "\<dots> = (\<bar>z - x\<bar> * y) * x" by simp
  also have "\<dots> \<le> (2 * u) * x"
    using d x by (intro mult_right_mono) simp_all
  finally have "\<bar>z - x\<bar> \<le> 4 * u * x" by simp
  then show ?thesis by (simp add: u_def)
qed

lemma reinit_reciprocal:
  assumes "pow2 (- 1022) \<le> x" and "x \<le> pow2 1022"
  shows "\<exists>z. ddiv d_one (ddiv d_one (Finite False x)) = Finite False z \<and> \<bar>z - x\<bar> \<le> x / 2 ^ 51"
    and "\<not> dle_zero (ddiv d_one (Finite False x))"
proof -
  let ?y = "round_mag (1 / x)"
  let ?z = "round_mag (1 / ?y)"
  have x: "0 < x" using assms(1) pow2_pos [of "- 1022"] by simp
  note rx = recip_in_range [OF assms]
  note ry = round_mag_in_range [OF rx]
  have y: "0 < ?y" using ry(1) pow2_pos [of "- 1022"] by simp
  note rry = recip_in_range [OF ry]
  have d1: "ddiv d_one (Finite False x) = Finite False ?y"
    using assms by (rule ddiv_one_finite)
  have d2: "ddiv d_one (Finite False ?y) = Finite False ?z"
    using ry by (rule ddiv_one_finite)
  have "\<bar>?z - x\<bar> \<le> x / 2 ^ 51"
    using x y round_mag_rel_err [OF rx(1)] round_mag_rel_err [OF rry(1)]
    by (rule recip_twice_err)
  then show "\<exists>z. ddiv d_one (ddiv d_one (Finite False x)) = Finite False z \<and> \<bar>z - x\<bar> \<le> x / 2 ^ 51"
    unfolding d1 d2 by blast
  show "\<not> dle_zero (ddiv d_one (Finite False x))"
    unfolding d1 using y by simp
qed


lemma init_twice:
  "tsc_ghz_inv (init (init c g t1 n1) g t2 n2) = tsc_ghz_inv (init c g t1 n1)"
proof (cases "dle_zero g")
  case True
  then show ?thesis by (simp add: init_nonpos)
next
  case False
  then show ?thesis by (simp add: init_pos)
qed

lemma ghz26_calibration_fields:
  "tsc_ghz_inv (snd ghz26_calibration) = Finite False (6928614811339225 / 18014398509481984)"
  "fst ghz26_calibration = Finite False (1463669878895411 / 562949953421312)"
proof -
  have s: "mk_double False (5 / 13) = Finite False (6928614811339225 / 18014398509481984)"
    by (simp add: mk_double_eval [where e = "- 2"] double_eval)
  show g: "tsc_ghz_inv (snd ghz26_calibration) = Finite False (6928614811339225 / 18014398509481984)"
    unfolding ghz26_calibration_def calibrate_tsc_ghz_inv
    by (simp add: init_zero_steady syncTime_steady int_to_double_exact s)
  show "fst ghz26_calibration = Finite False (1463669878895411 / 562949953421312)"
    unfolding ghz26_calibration_def calibrate_result_eq
    unfolding ghz26_calibration_def [symmetric] g
    by (simp add: d_one_def mk_double_eval [where e = 1] double_eval)
qed

lemma int_to_double_nonzero:
  assumes "i \<noteq> 0" and "\<bar>i\<bar> \<le> 2 ^ 63"
  shows "int_to_double i = Finite (i < 0) (round_mag (of_int \<bar>i\<bar>))"
    and "pow2 0 \<le> round_mag (of_int \<bar>i\<bar>)" and "round_mag (of_int \<bar>i\<bar>) \<le> pow2 63"
proof -
  show "int_to_double i = Finite (i < 0) (round_mag (of_int \<bar>i\<bar>))"
    using assms(2) by (rule int_to_double_finite)
  have "1 \<le> \<bar>i\<bar>" using assms(1) by simp
  then have "(of_int 1 :: rat) \<le> of_int \<bar>i\<bar>" by (simp only: of_int_le_iff)
  then have lo: "pow2 0 \<le> (of_int \<bar>i\<bar> :: rat)" by (simp add: pow2_0)
  then show "pow2 0 \<le> round_mag (of_int \<bar>i\<bar>)"
    by (rule round_mag_ge_pow2) simp
  have "(of_int \<bar>i\<bar> :: rat) \<le> of_int (2 ^ 63)" using assms(2) by (simp only: of_int_le_iff)
  then have hi: "(of_int \<bar>i\<bar> :: rat) \<le> pow2 63" by (simp add: pow2_def)
  have "(0 :: rat) \<le> of_int \<bar>i\<bar>" using lo pow2_pos [of 0] by simp
  then show "round_mag (of_int \<bar>i\<bar>) \<le> pow2 63"
    using hi by (rule round_mag_le_pow2) simp
qed

lemma quotient_shape_ddiv:
  assumes "\<bar>i\<bar> \<le> 2 ^ 63" and "\<bar>j\<bar> \<le> 2 ^ 63"
  shows "quotient_shape (ddiv (int_to_double i) (int_to_double j))"
proof (cases "j = 0")
  case True
  have "\<exists>s a. int_to_double i = Finite s a"
    using int_to_double_finite [OF assms(1)] by blast
  then show ?thesis
    using True by (auto simp: int_to_double_0 quotient_shape_def)
next
  case j: False
  let ?B = "round_mag (of_int \<bar>j\<bar>)"
  note b = int_to_double_nonzero [OF j assms(2)]
  have B: "1 \<le> ?B" "?B \<le> 2 ^ 63" using b(2,3) by (simp_all add: pow2_def)
  then have B0: "?B \<noteq> 0" "0 < ?B" by simp_all
  show ?thesis
  proof (cases "i = 0")
    case True
    have "mk_double s 0 = Finite s 0" for s
      using pow2_pos [of 1024] by (simp add: mk_double_def round_mag_def)
    then show ?thesis
      using True B0(1) by (simp add: int_to_double_0 b(1) quotient_shape_def)
  next
    case i: False
    let ?A = "round_mag (of_int \<bar>i\<bar>)"
    note a = int_to_double_nonzero [OF i assms(1)]
    have A: "1 \<le> ?A" "?A \<le> 2 ^ 63" using a(2,3) by (simp_all add: pow2_def)
    have "1 / 2 ^ 63 \<le> 1 / ?B" using B by (simp add: frac_le)
    also have "1 / ?B \<le> ?A / ?B" using A(1) B0(2) by (simp add: divide_right_mono)
    finally have lo: "pow2 (- 63) \<le> ?A / ?B" by (simp add: pow2_def)
    have "?A / ?B \<le> ?A / 1" using A(1) B(1) by (intro divide_left_mono) simp_all
    with A(2) have hi: "?A / ?B \<le> pow2 63" by (simp add: pow2_def)
    have q0: "0 \<le> ?A / ?B" using lo pow2_pos [of "- 63"] by simp
    have r1: "pow2 (- 63) \<le> round_mag (?A / ?B)"
      using lo by (rule round_mag_ge_pow2) simp
    have r2: "round_mag (?A / ?B) \<le> pow2 63"
      using q0 hi by (rule round_mag_le_pow2) simp
    have "?A / ?B \<le> pow2 1023"
      using hi pow2_mono [of 63 1023] by simp
    with q0 have "mk_double ((i < 0) \<noteq> (j < 0)) (?A / ?B) =
        Finite ((i < 0) \<noteq> (j < 0)) (round_mag (?A / ?B))"
      by (rule mk_double_finite)
    then have "ddiv (int_to_double i) (int_to_double j) =
        Finite ((i < 0) \<noteq> (j < 0)) (round_mag (?A / ?B))"
      unfolding a(1) b(1) using B0(1) by simp
    moreover have "pow2 (- 1022) \<le> round_mag (?A / ?B)"
      using r1 pow2_mono [of "- 1022" "- 63"] by simp
    moreover have "round_mag (?A / ?B) \<le> pow2 1022"
      using r2 pow2_mono [of 63 1022] by simp
    ultimately show ?thesis
      by (simp add: quotient_shape_def)
  qed
qed

lemma ddiv_one_signed:
  assumes "pow2 (- 1022) \<le> x" and "x \<le> pow2 1022"
  shows "ddiv d_one (Finite s x) = Finite s (round_mag (1 / x))"
proof -
  have x: "x \<noteq> 0" using assms(1) pow2_pos [of "- 1022"] by simp
  have "0 \<le> 1 / x" using assms(1) pow2_pos [of "- 1022"] by simp
  moreover have "1 / x \<le> pow2 1023"
    using recip_in_range(2) [OF assms] pow2_mono [of 1022 1023] by simp
  ultimately have "mk_double s (1 / x) = Finite s (round_mag (1 / x))"
    by (rule mk_double_finite)
  then show ?thesis
    using x by (simp add: d_one_def)
qed

text \<open>What \<open>init\<close> writes when it is given the reciprocal of the present \<open>tsc_ghz_inv\<close>.\<close>

lemma reciprocal_twice:
  assumes "quotient_shape d"
  shows "(if dle_zero (ddiv d_one d) then d else ddiv d_one (ddiv d_one d)) = d \<or>
     (\<exists>x z. d = Finite False x \<and>
        (if dle_zero (ddiv d_one d) then d else ddiv d_one (ddiv d_one d)) = Finite False z \<and>
        \<bar>z - x\<bar> \<le> x / 2 ^ 51)"
proof (cases d)
  case NaN
  then show ?thesis by (simp add: d_one_def)
next
  case (Infinity s)
  then show ?thesis by (simp add: d_one_def)
next
  case (Finite s x)
  show ?thesis
  proof (cases "x = 0")
    case True
    have "mk_double False 0 = Finite False 0"
      using pow2_pos [of 1024] by (simp add: mk_double_def round_mag_def)
    then show ?thesis
      using Finite True by (cases s) (simp_all add: d_one_def)
  next
    case False
    with assms Finite have x: "pow2 (- 1022) \<le> x" "x \<le> pow2 1022"
      by (simp_all add: quotient_shape_def)
    show ?thesis
    proof (cases s)
      case True
      have "0 < round_mag (1 / x)"
        using round_mag_in_range(1) [OF recip_in_range [OF x]] pow2_pos [of "- 1022"] by simp
      then show ?thesis
        unfolding Finite ddiv_one_signed [OF x] using True by simp
    next
      case False
      then have s: "s = False" by simp
      obtain z where z: "ddiv d_one (ddiv d_one (Finite False x)) = Finite False z"
          "\<bar>z - x\<bar> \<le> x / 2 ^ 51"
        using reinit_reciprocal(1) [OF x] by blast
      have "\<not> dle_zero (ddiv d_one (Finite False x))"
        using x by (rule reinit_reciprocal(2))
      then show ?thesis
        unfolding Finite s using z by simp
    qed
  qed
qed

lemma init_after_calibrate:
  "tsc_ghz_inv (init (snd (calibrate c t1 n1)) (fst (calibrate c t1 n1)) t2 n2) =
     (if dle_zero (ddiv d_one (tsc_ghz_inv (snd (calibrate c t1 n1))))
      then tsc_ghz_inv (snd (calibrate c t1 n1))
      else ddiv d_one (ddiv d_one (tsc_ghz_inv (snd (calibrate c t1 n1)))))"
  unfolding calibrate_result_eq by (simp add: init_nonpos init_pos)

lemma tsc_diff_shifted: "tsc_diff (shifted_tscs d) i = tsc_diff jitter_tscs i"
  by (simp add: tsc_diff_def shifted_tscs_def)

lemma best_loop_shifted:
  "best_loop (shifted_tscs d) i best = best_loop jitter_tscs i best"
proof (induction "shifted_tscs d" i best rule: best_loop.induct)
  case (1 i best)
  show ?case
  proof (cases "i \<le> N")
    case True
    with "1.hyps" show ?thesis
      by (subst (1 2) best_loop.simps) (simp add: tsc_diff_shifted)
  next
    case False
    then show ?thesis
      by (subst (1 2) best_loop.simps) simp
  qed
qed

lemma sync_best_shifted: "sync_best (shifted_tscs d) = 4"
proof -
  have "sync_best (shifted_tscs d) = sync_best jitter_tscs"
    by (simp only: sync_best_def best_loop_shifted)
  then show ?thesis by (simp only: sync_best_jitter)
qed
















section \<open>Claims\<close>

text \<open>
  C2. For every content of the two arrays after the ten sampling rounds, \<open>syncTime\<close>
  selects a round \<open>best\<close> in \<open>1 .. 10\<close> whose difference \<open>tscs[best] - tscs[best - 1]\<close> is
  the least of all ten rounds, the lowest index winning among equal differences (every
  earlier round has a strictly greater difference), and returns
  \<open>(tscs[best] + tscs[best - 1]) / 2\<close> together with \<open>nses[best]\<close>. Differences, sum and
  comparison are those of \<open>uint64_t\<close>; where the sum of the two readings stays below
  \<open>2 ^ 64\<close> the returned tick value is the midpoint of the two readings, rounded down.
\<close>

theorem syncTime_min_diff:
  "(let best = sync_best tscs in
      1 \<le> best \<and> best \<le> 10 \<and>
      (\<forall>i. 1 \<le> i \<and> i \<le> 10 \<longrightarrow> tscs best - tscs (best - 1) \<le> tscs i - tscs (i - 1)) \<and>
      (\<forall>i. 1 \<le> i \<and> i < best \<longrightarrow> tscs best - tscs (best - 1) < tscs i - tscs (i - 1)) \<and>
      syncTime tscs nses = ((tscs best + tscs (best - 1)) div 2, nses best) \<and>
      (unat (tscs best) + unat (tscs (best - 1)) < 2 ^ 64 \<longrightarrow>
         unat (fst (syncTime tscs nses)) = (unat (tscs best) + unat (tscs (best - 1))) div 2))"
proof -
  have r: "1 \<le> sync_best tscs" "sync_best tscs \<le> 10"
    using sync_best_range [of tscs] by (simp_all add: N_def)
  have l: "least_upto tscs 11 (sync_best tscs)"
    using sync_best_least [of tscs] by (simp add: N_def)
  have m: "\<forall>i. 1 \<le> i \<and> i \<le> 10 \<longrightarrow>
      tscs (sync_best tscs) - tscs (sync_best tscs - 1) \<le> tscs i - tscs (i - 1)"
    using l by (simp add: least_upto_def tsc_diff_def)
  have s: "\<forall>i. 1 \<le> i \<and> i < sync_best tscs \<longrightarrow>
      tscs (sync_best tscs) - tscs (sync_best tscs - 1) < tscs i - tscs (i - 1)"
    using l by (simp add: least_upto_def tsc_diff_def)
  have e: "syncTime tscs nses =
      ((tscs (sync_best tscs) + tscs (sync_best tscs - 1)) div 2, nses (sync_best tscs))"
    unfolding syncTime_def Let_def drop_bit_1_u64 by (rule refl)
  have h: "unat (tscs (sync_best tscs)) + unat (tscs (sync_best tscs - 1)) < 2 ^ 64 \<longrightarrow>
      unat (fst (syncTime tscs nses)) =
        (unat (tscs (sync_best tscs)) + unat (tscs (sync_best tscs - 1))) div 2"
    unfolding e fst_conv by (rule impI) (rule unat_half_sum)
  show ?thesis
    unfolding Let_def using r m s e h by blast
qed

theorem syncTime_min_diff_witness:
  "sync_best jitter_tscs = 4 \<and>
   (1 \<le> (6::nat) \<and> (6::nat) \<le> 10) \<and> jitter_tscs 4 - jitter_tscs 3 \<le> jitter_tscs 6 - jitter_tscs 5 \<and>
   (1 \<le> (2::nat) \<and> (2::nat) < 4) \<and> jitter_tscs 4 - jitter_tscs 3 < jitter_tscs 2 - jitter_tscs 1 \<and>
   syncTime jitter_tscs jitter_nses = (1134, 5080) \<and>
   unat (jitter_tscs 4) + unat (jitter_tscs 3) < 2 ^ 64 \<and>
   unat (fst (syncTime jitter_tscs jitter_nses)) = (1139 + 1130) div 2"
proof -
  note t = syncTime_min_diff [of jitter_tscs jitter_nses, unfolded Let_def sync_best_jitter]
  from t have a: "\<forall>i. 1 \<le> i \<and> i \<le> 10 \<longrightarrow> jitter_tscs 4 - jitter_tscs (4 - 1) \<le> jitter_tscs i - jitter_tscs (i - 1)"
    by blast
  from t have b: "\<forall>i. 1 \<le> i \<and> i < 4 \<longrightarrow> jitter_tscs 4 - jitter_tscs (4 - 1) < jitter_tscs i - jitter_tscs (i - 1)"
    by blast
  from t have c: "syncTime jitter_tscs jitter_nses = ((jitter_tscs 4 + jitter_tscs (4 - 1)) div 2, jitter_nses 4)"
    by blast
  have d: "unat (jitter_tscs 4) + unat (jitter_tscs (4 - 1)) < 2 ^ 64"
    by (simp add: jitter_tscs_def)
  with t have e: "unat (fst (syncTime jitter_tscs jitter_nses)) = (unat (jitter_tscs 4) + unat (jitter_tscs (4 - 1))) div 2"
    by blast
  have a6: "jitter_tscs 4 - jitter_tscs 3 \<le> jitter_tscs 6 - jitter_tscs 5"
    using a [rule_format, of 6] by simp
  have b2: "jitter_tscs 4 - jitter_tscs 3 < jitter_tscs 2 - jitter_tscs 1"
    using b [rule_format, of 2] by simp
  have c': "syncTime jitter_tscs jitter_nses = (1134, 5080)"
    unfolding c by (simp add: jitter_tscs_def jitter_nses_def)
  have e': "unat (fst (syncTime jitter_tscs jitter_nses)) = (1139 + 1130) div 2"
    unfolding e by (simp add: jitter_tscs_def)
  have d': "unat (jitter_tscs 4) + unat (jitter_tscs 3) < 2 ^ 64"
    using d by simp
  show ?thesis
    using sync_best_jitter a6 b2 c' d' e' by simp
qed

text \<open>
  C2, as stated, fails for the tick value where the sum of the two readings exceeds
  \<open>2\<^sup>6\<^sup>4 - 1\<close>: with the best round between the readings \<open>2\<^sup>6\<^sup>4 - 870\<close> and \<open>2\<^sup>6\<^sup>4 - 861\<close>
  the sum wraps and \<open>syncTime\<close> returns \<open>2\<^sup>6\<^sup>3 - 866\<close>, not the midpoint \<open>2\<^sup>6\<^sup>4 - 866\<close>.
\<close>

theorem syncTime_midpoint_counterexample:
  "sync_best (shifted_tscs 18446744073709549616) = 4 \<and>
   unat (shifted_tscs 18446744073709549616 4) = 18446744073709550755 \<and>
   unat (shifted_tscs 18446744073709549616 3) = 18446744073709550746 \<and>
   (18446744073709550755 + 18446744073709550746) div 2 = (18446744073709550750 :: nat) \<and>
   unat (fst (syncTime (shifted_tscs 18446744073709549616) jitter_nses)) = 9223372036854774942 \<and>
   unat (fst (syncTime (shifted_tscs 18446744073709549616) jitter_nses)) \<noteq>
     (unat (shifted_tscs 18446744073709549616 4) + unat (shifted_tscs 18446744073709549616 3)) div 2"
  by (simp add: sync_best_shifted syncTime_fst_div)
     (simp add: shifted_tscs_def jitter_tscs_def)



text \<open>
  C8. When \<open>ns_offset\<close> holds a negative number of nanoseconds in two's complement and
  the scaled tick value is at least as large as its magnitude, the \<open>uint64_t\<close> sum that
  \<open>tsc2ns\<close> returns is the sum of the two as integers: the addition wraps to the
  non-negative mathematical result.
\<close>

theorem tsc2ns_negative_offset:
  "sint (ns_offset c) < 0 \<Longrightarrow> - sint (ns_offset c) \<le> sint (scaled (tsc_ghz_inv c) tsc) \<Longrightarrow>
   uint (tsc2ns c tsc) = sint (ns_offset c) + sint (scaled (tsc_ghz_inv c) tsc)"
  unfolding tsc2ns_def by (rule uint_add_sint) simp

theorem tsc2ns_negative_offset_witness:
  "sint (ns_offset late_counter) = - 1499000000000 \<and>
   sint (scaled (tsc_ghz_inv late_counter) 4000000000000) = 2000000000000 \<and>
   uint (tsc2ns late_counter 4000000000000) = 501000000000"
proof -
  have a: "sint (ns_offset late_counter) = - 1499000000000"
    unfolding late_off by simp
  have b: "sint (scaled (tsc_ghz_inv late_counter) 4000000000000) = 2000000000000"
    unfolding late_off late2 by simp
  have "uint (tsc2ns late_counter 4000000000000) =
      sint (ns_offset late_counter) + sint (scaled (tsc_ghz_inv late_counter) 4000000000000)"
    by (rule tsc2ns_negative_offset) (simp_all add: a b)
  then show ?thesis
    using a b by simp
qed

text \<open>
  C9, as the code has it. \<open>init\<close> with an argument \<open>tsc_ghz <= 0.0\<close> returns right after
  \<open>syncTime\<close>: it overwrites \<open>base_tsc\<close> and \<open>base_ns\<close> and leaves \<open>tsc_ghz_inv\<close> and
  \<open>ns_offset\<close> as they were before the call. On a newly constructed object these are
  the defaults \<open>1.0\<close> and \<open>0\<close>.
\<close>

theorem init_nonpositive_scale:
  "dle_zero tsc_ghz \<Longrightarrow>
   tsc_ghz_inv (init c tsc_ghz tscs nses) = tsc_ghz_inv c \<and>
   ns_offset (init c tsc_ghz tscs nses) = ns_offset c \<and>
   (base_tsc (init c tsc_ghz tscs nses), base_ns (init c tsc_ghz tscs nses)) = syncTime tscs nses \<and>
   tsc_ghz_inv (init new_TSCNS tsc_ghz tscs nses) = d_one \<and>
   ns_offset (init new_TSCNS tsc_ghz tscs nses) = 0"
  by (simp add: init_nonpos new_TSCNS_def)

theorem init_nonpositive_scale_witness:
  "dle_zero d_zero \<and>
   tsc_ghz_inv (init late_counter d_zero (steady 2000) (steady 6000)) = Finite False (1 / 2) \<and>
   ns_offset (init late_counter d_zero (steady 2000) (steady 6000)) = - 1499000000000 \<and>
   base_tsc (init late_counter d_zero (steady 2000) (steady 6000)) = 2000 \<and>
   base_ns (init late_counter d_zero (steady 2000) (steady 6000)) = 6000 \<and>
   tsc_ghz_inv (init new_TSCNS d_zero (steady 2000) (steady 6000)) = d_one \<and>
   ns_offset (init new_TSCNS d_zero (steady 2000) (steady 6000)) = 0"
proof -
  have z: "dle_zero d_zero" by (simp add: d_zero_def)
  have s: "syncTime (steady 2000) (steady 6000) = (2000, 6000)"
    by (rule syncTime_steady) simp
  show ?thesis
    using init_nonpositive_scale [OF z, of late_counter "steady 2000" "steady 6000"] z
    by (simp add: late_off s)
qed

text \<open>
  C9, as stated, fails where \<open>init(0.0)\<close> follows an \<open>init(2.0)\<close> on the same object:
  \<open>tsc_ghz_inv\<close> stays \<open>0.5\<close> and is not the default \<open>1.0\<close>.
\<close>

theorem init_nonpositive_scale_counterexample:
  "dle_zero d_zero \<and>
   tsc_ghz_inv (init (init new_TSCNS d_two (steady 1000) (steady 5000)) d_zero
                  (steady 2000) (steady 6000)) \<noteq> d_one"
proof -
  have "tsc_ghz_inv (init (init new_TSCNS d_two (steady 1000) (steady 5000)) d_zero
                  (steady 2000) (steady 6000)) = Finite False (1 / 2)"
    by (simp add: init_nonpos init_pos d_zero_def ddiv_one_two) (simp add: d_two_def init_pos ddiv_one_two [unfolded d_two_def])
  then show ?thesis
    by (simp add: d_one_def d_zero_def)
qed




text \<open>
  The divisor is not checked either: on a counter that does not advance between the
  two probes it is zero, and \<open>tsc_ghz_inv\<close> becomes the infinite quotient \<open>2000 / 0\<close>.
\<close>

lemma calibrate_zero_divisor_steady:
  "sint (fst (syncTime (steady 1000) (steady 7000)) -
         base_tsc (init new_TSCNS d_zero (steady 1000) (steady 5000))) = 0 \<and>
   tsc_ghz_inv (snd (calibrate (init new_TSCNS d_zero (steady 1000) (steady 5000))
                       (steady 1000) (steady 7000))) = Infinity False"
  by (simp add: calibrate_tsc_ghz_inv init_zero_steady syncTime_steady int_to_double_exact)

text \<open>
  C3. \<open>calibrate\<close> sets \<open>tsc_ghz_inv\<close> to the quotient, in \<open>double\<close>, of the two differences
  \<open>delayed_ns - base_ns\<close> and \<open>delayed_tsc - base_tsc\<close> read as \<open>int64_t\<close>, and returns
  \<open>1.0 / tsc_ghz_inv\<close>. When the second probe is \<open>3,000,000,000\<close> ticks and
  \<open>1,000,000,000\<close> ns after the base samples, the result is exactly \<open>3.0\<close> and
  \<open>tsc_ghz_inv\<close> is \<open>1/3\<close> rounded to a double, less than \<open>2\<^sup>-\<^sup>5\<^sup>5\<close> away from \<open>1/3\<close>.
\<close>

theorem calibrate_scale:
  "tsc_ghz_inv (snd (calibrate c tscs nses)) =
     ddiv (int_to_double (sint (snd (syncTime tscs nses) - base_ns c)))
          (int_to_double (sint (fst (syncTime tscs nses) - base_tsc c))) \<and>
   fst (calibrate c tscs nses) = ddiv d_one (tsc_ghz_inv (snd (calibrate c tscs nses))) \<and>
   (fst (syncTime tscs nses) = base_tsc c + 3000000000 \<and>
    snd (syncTime tscs nses) = base_ns c + 1000000000 \<longrightarrow>
      fst (calibrate c tscs nses) = Finite False 3 \<and>
      tsc_ghz_inv (snd (calibrate c tscs nses)) = mk_double False (1 / 3) \<and>
      \<bar>valof (tsc_ghz_inv (snd (calibrate c tscs nses))) - 1 / 3\<bar> < 1 / 2 ^ 55)"
proof -
  have "fst (calibrate c tscs nses) = Finite False 3 \<and>
      tsc_ghz_inv (snd (calibrate c tscs nses)) = mk_double False (1 / 3) \<and>
      \<bar>valof (tsc_ghz_inv (snd (calibrate c tscs nses))) - 1 / 3\<bar> < 1 / 2 ^ 55"
    if "fst (syncTime tscs nses) = base_tsc c + 3000000000"
      and "snd (syncTime tscs nses) = base_ns c + 1000000000"
  proof -
    have s: "tsc_ghz_inv (snd (calibrate c tscs nses)) = mk_double False (1 / 3)"
      unfolding calibrate_tsc_ghz_inv that by (simp add: ddiv_1e9_3e9)
    have "fst (calibrate c tscs nses) = Finite False 3"
      unfolding calibrate_result_eq s third_double by (rule ddiv_one_third)
    moreover have "\<bar>valof (mk_double False (1 / 3)) - 1 / 3\<bar> < 1 / 2 ^ 55"
      unfolding third_double by simp
    ultimately show ?thesis
      using s by simp
  qed
  then show ?thesis
    using calibrate_tsc_ghz_inv [of c tscs nses] calibrate_result_eq [of c tscs nses] by blast
qed

theorem calibrate_scale_witness:
  "fst (syncTime (steady 4000000000) (steady 6000000000)) =
     base_tsc (init new_TSCNS d_zero (steady 1000000000) (steady 5000000000)) + 3000000000 \<and>
   snd (syncTime (steady 4000000000) (steady 6000000000)) =
     base_ns (init new_TSCNS d_zero (steady 1000000000) (steady 5000000000)) + 1000000000 \<and>
   fst (calibrate (init new_TSCNS d_zero (steady 1000000000) (steady 5000000000))
          (steady 4000000000) (steady 6000000000)) = Finite False 3 \<and>
   tsc_ghz_inv (snd (calibrate (init new_TSCNS d_zero (steady 1000000000) (steady 5000000000))
          (steady 4000000000) (steady 6000000000))) =
     Finite False (6004799503160661 / 18014398509481984)"
proof -
  let ?c = "init new_TSCNS d_zero (steady 1000000000) (steady 5000000000)"
  have a: "fst (syncTime (steady 4000000000) (steady 6000000000)) = base_tsc ?c + 3000000000"
    and b: "snd (syncTime (steady 4000000000) (steady 6000000000)) = base_ns ?c + 1000000000"
    by (simp_all add: init_zero_steady syncTime_steady)
  note t = calibrate_scale [of ?c "steady 4000000000" "steady 6000000000"]
  from t a b have r: "fst (calibrate ?c (steady 4000000000) (steady 6000000000)) = Finite False 3"
    by blast
  from t a b have "tsc_ghz_inv (snd (calibrate ?c (steady 4000000000) (steady 6000000000))) =
      mk_double False (1 / 3)"
    by blast
  then have s: "tsc_ghz_inv (snd (calibrate ?c (steady 4000000000) (steady 6000000000))) =
      Finite False (6004799503160661 / 18014398509481984)"
    unfolding third_double .
  show ?thesis
    using a b r s by blast
qed

text \<open>
  C1, as the code has it. For a finite \<open>tsc_ghz_inv\<close>, \<open>tsc2ns\<close> returns \<open>ns_offset\<close> plus
  the product of the tick count, read as \<open>int64_t\<close>, and \<open>tsc_ghz_inv\<close>, computed in
  \<open>double\<close> and truncated towards zero by the cast to \<open>int64_t\<close> (provided the truncated
  product is an \<open>int64_t\<close>); the sum is that of \<open>uint64_t\<close>. For tick counts up to
  \<open>2\<^sup>5\<^sup>3\<close> in magnitude the \<open>double\<close> product is the exact product rounded to the
  nearest double.
\<close>

theorem tsc2ns_truncates:
  assumes "tsc_ghz_inv c = Finite t g" and "0 \<le> g"
    and "is_finite (dmul (int_to_double (sint tsc)) (tsc_ghz_inv c))"
    and "- (2 ^ 63) \<le> trunc_zero (valof (dmul (int_to_double (sint tsc)) (tsc_ghz_inv c)))"
    and "trunc_zero (valof (dmul (int_to_double (sint tsc)) (tsc_ghz_inv c))) < 2 ^ 63"
  shows "tsc2ns c tsc =
      ns_offset c + word_of_int (trunc_zero (valof (dmul (int_to_double (sint tsc)) (tsc_ghz_inv c)))) \<and>
     (\<bar>sint tsc\<bar> \<le> 2 ^ 53 \<longrightarrow>
        valof (dmul (int_to_double (sint tsc)) (tsc_ghz_inv c)) =
          rnd (of_int (sint tsc) * valof (tsc_ghz_inv c)))"
proof -
  let ?p = "dmul (int_to_double (sint tsc)) (tsc_ghz_inv c)"
  let ?s = "(sint tsc < 0) \<noteq> t"
  let ?m = "round_mag (of_int \<bar>sint tsc\<bar>) * g"
  have p: "?p = mk_double ?s ?m"
    unfolding assms(1) by (rule dmul_int_finite)
  with assms(3) have f: "?p = Finite ?s (round_mag ?m)"
    by (simp add: is_finite_mk_double)
  have "0 \<le> ?m"
    using assms(2) by (simp add: round_mag_nonneg)
  then have "0 \<le> round_mag ?m"
    by (rule round_mag_nonneg)
  then have "double_to_int64 ?p = word_of_int (trunc_zero (valof ?p))"
    unfolding f using assms(4,5) [unfolded f] by (simp only: double_to_int64_trunc if_True simp_thms)
  then have a: "tsc2ns c tsc = ns_offset c + word_of_int (trunc_zero (valof ?p))"
    by (simp add: tsc2ns_def scaled_def)
  have b: "valof ?p = rnd (of_int (sint tsc) * valof (tsc_ghz_inv c))"
    if "\<bar>sint tsc\<bar> \<le> 2 ^ 53"
  proof -
    have "(of_nat (nat \<bar>sint tsc\<bar>) :: rat) = of_int \<bar>sint tsc\<bar>"
      by simp
    have "int_to_double (sint tsc) = Finite (sint tsc < 0) (of_int \<bar>sint tsc\<bar>)"
      using that by (rule int_to_double_exact)
    with int_to_double_finite [OF sint_abs_u64, of tsc]
    have e: "round_mag (of_int \<bar>sint tsc\<bar>) = of_int \<bar>sint tsc\<bar>"
      by simp
    have "of_int (sint tsc) = (if sint tsc < 0 then - (of_int \<bar>sint tsc\<bar> :: rat) else of_int \<bar>sint tsc\<bar>)"
      by simp
    then have "rnd (of_int (sint tsc) * valof (tsc_ghz_inv c)) =
        rnd ((if sint tsc < 0 then - of_int \<bar>sint tsc\<bar> else of_int \<bar>sint tsc\<bar>) *
             (if t then - g else g))"
      unfolding assms(1) valof.simps by (simp only:)
    also have "\<dots> = (if ?s then - round_mag (of_int \<bar>sint tsc\<bar> * g)
                        else round_mag (of_int \<bar>sint tsc\<bar> * g))"
      using assms(2) by (intro rnd_signed) simp_all
    also have "\<dots> = valof ?p"
      unfolding f e by simp
    finally show ?thesis by (rule sym)
  qed
  from a b show ?thesis by blast
qed

theorem tsc2ns_truncates_witness:
  "tsc_ghz_inv three_quarter_clock = Finite False (3 / 4) \<and>
   valof (dmul (int_to_double (sint (1001 :: u64))) (tsc_ghz_inv three_quarter_clock)) = 3003 / 4 \<and>
   trunc_zero (3003 / 4) = 750 \<and>
   tsc2ns three_quarter_clock 1001 = ns_offset three_quarter_clock + 750 \<and>
   rnd (of_int (sint (1001 :: u64)) * valof (tsc_ghz_inv three_quarter_clock)) = 3003 / 4"
proof -
  let ?p = "dmul (int_to_double (sint (1001 :: u64))) (tsc_ghz_inv three_quarter_clock)"
  have p: "?p = Finite False (3003 / 4)"
    by (simp add: three_quarter_clock_fields three_quarter_product)
  have v: "valof ?p = 3003 / 4"
    unfolding p by simp
  have tz: "trunc_zero (3003 / 4) = 750"
    by (simp add: trunc_zero_def floor_numeral_frac)
  have g: "tsc_ghz_inv three_quarter_clock = Finite False (3 / 4)" "(0::rat) \<le> 3 / 4"
    by (simp_all add: three_quarter_clock_fields)
  have f: "is_finite ?p" unfolding p by simp
  have lo: "- (2 ^ 63) \<le> trunc_zero (valof ?p)" and hi: "trunc_zero (valof ?p) < 2 ^ 63"
    unfolding v tz by simp_all
  note t = tsc2ns_truncates [OF g f lo hi]
  have s: "\<bar>sint (1001 :: u64)\<bar> \<le> 2 ^ 53" by simp
  from t have "tsc2ns three_quarter_clock 1001 = ns_offset three_quarter_clock + word_of_int (trunc_zero (valof ?p))"
    by blast
  then have a: "tsc2ns three_quarter_clock 1001 = ns_offset three_quarter_clock + 750"
    unfolding v tz by simp
  from t s have "valof ?p = rnd (of_int (sint (1001 :: u64)) * valof (tsc_ghz_inv three_quarter_clock))"
    by blast
  then have b: "rnd (of_int (sint (1001 :: u64)) * valof (tsc_ghz_inv three_quarter_clock)) = 3003 / 4"
    unfolding v by (rule sym)
  show ?thesis
    using g(1) v tz a b by blast
qed

text \<open>
  C1, as stated, fails: with \<open>tsc_ghz_inv = 0.75\<close> and \<open>ns_offset = 4250\<close> the product for
  \<open>1001\<close> ticks is \<open>750.75\<close>; the code adds \<open>750\<close>, rounding to the nearest integer
  would add \<open>751\<close>.
\<close>

theorem tsc2ns_round_counterexample:
  "tsc2ns three_quarter_clock 1001 = 5000 \<and>
   ns_offset three_quarter_clock +
     word_of_int (round (of_int (sint (1001 :: u64)) * valof (tsc_ghz_inv three_quarter_clock))) = 5001"
proof -
  have "round (3003 / 4 :: rat) = 751"
    unfolding round_def by (simp add: floor_numeral_frac)
  then show ?thesis
    by (simp add: tsc2ns_def scaled_def three_quarter_clock_fields three_quarter_product
        floor_numeral_frac)
qed

text \<open>
  C6, as the code has it. With a finite, non-negative \<open>tsc_ghz_inv\<close>, tick values
  \<open>a \<le> b\<close> below \<open>2\<^sup>6\<^sup>3\<close>, a product for \<open>b\<close> that the cast to \<open>int64_t\<close> can hold, and a
  non-negative converted time for \<open>a\<close> (\<open>ns_offset\<close> read as \<open>int64_t\<close>), the converted
  times are ordered: \<open>tsc2ns(a) \<le> tsc2ns(b)\<close>, and so are two readings of \<open>rdns\<close>.
\<close>

theorem tsc2ns_monotone:
  assumes "tsc_ghz_inv c = Finite False g" and "0 \<le> g"
    and "a \<le> b" and "uint b < 2 ^ 63"
    and "in_int64 (dmul (int_to_double (sint b)) (tsc_ghz_inv c))"
    and "0 \<le> sint (ns_offset c) + sint (scaled (tsc_ghz_inv c) a)"
  shows "tsc2ns c a \<le> tsc2ns c b \<and> rdns c a \<le> rdns c b"
proof -
  let ?ra = "round_mag (round_mag (of_int (uint a)) * g)"
  let ?rb = "round_mag (round_mag (of_int (uint b)) * g)"
  have rb: "?rb < 2 ^ 63"
    using assms(2,4) assms(5) [unfolded assms(1)] by (rule in_int64_nonneg)
  have le: "?ra \<le> ?rb"
    using assms(2,3,4) rb by (rule scaled_mono)
  with rb have ra: "?ra < 2 ^ 63" by simp
  have "uint a \<le> uint b" using assms(3) by (simp add: word_le_def)
  with assms(4) have a: "uint a < 2 ^ 63" by simp
  have sa: "sint (scaled (Finite False g) a) = \<lfloor>?ra\<rfloor>"
    using assms(2) a ra by (rule scaled_nonneg)
  have sb: "sint (scaled (Finite False g) b) = \<lfloor>?rb\<rfloor>"
    using assms(2,4) rb by (rule scaled_nonneg)
  have fl: "\<lfloor>?ra\<rfloor> \<le> \<lfloor>?rb\<rfloor>" using le by (rule floor_mono)
  have pa: "0 \<le> sint (ns_offset c) + sint (scaled (Finite False g) a)"
    using assms(6) unfolding assms(1) .
  then have pb: "0 \<le> sint (ns_offset c) + sint (scaled (Finite False g) b)"
    unfolding sa sb using fl by simp
  have "uint (tsc2ns c a) = sint (ns_offset c) + \<lfloor>?ra\<rfloor>"
    unfolding tsc2ns_def assms(1) uint_add_sint [OF pa] sa by (rule refl)
  moreover have "uint (tsc2ns c b) = sint (ns_offset c) + \<lfloor>?rb\<rfloor>"
    unfolding tsc2ns_def assms(1) uint_add_sint [OF pb] sb by (rule refl)
  ultimately have "uint (tsc2ns c a) \<le> uint (tsc2ns c b)"
    using fl by simp
  then have "tsc2ns c a \<le> tsc2ns c b" by (simp add: word_le_def)
  then show ?thesis unfolding rdns_def by simp
qed

theorem tsc2ns_monotone_witness:
  "tsc_ghz_inv late_counter = Finite False (1 / 2) \<and>
   (3000000000000 :: u64) \<le> 4000000000000 \<and>
   tsc2ns late_counter 3000000000000 = 1000000000 \<and>
   tsc2ns late_counter 4000000000000 = 501000000000 \<and>
   tsc2ns late_counter 3000000000000 \<le> tsc2ns late_counter 4000000000000"
proof -
  have g: "tsc_ghz_inv late_counter = Finite False (1 / 2)" "(0::rat) \<le> 1 / 2"
    by (simp_all add: late_off)
  have ab: "(3000000000000 :: u64) \<le> 4000000000000" and b: "uint (4000000000000 :: u64) < 2 ^ 63"
    by simp_all
  have i: "in_int64 (dmul (int_to_double (sint (4000000000000 :: u64))) (tsc_ghz_inv late_counter))"
    unfolding g(1) late_product by (simp add: in_int64_def trunc_zero_def)
  have p: "0 \<le> sint (ns_offset late_counter) + sint (scaled (tsc_ghz_inv late_counter) 3000000000000)"
    unfolding late_off late1 by simp
  have m: "tsc2ns late_counter 3000000000000 \<le> tsc2ns late_counter 4000000000000"
    using tsc2ns_monotone [OF g ab b i p] by (rule conjunct1)
  have v: "tsc2ns late_counter 3000000000000 = 1000000000"
    "tsc2ns late_counter 4000000000000 = 501000000000"
    by (simp_all add: tsc2ns_def late_off late1 late2)
  show ?thesis
    using g(1) ab v m by blast
qed

text \<open>
  C6, as stated, fails on a clock whose calibration saw the wall clock go backwards:
  \<open>tsc_ghz_inv\<close> is negative and later tick values convert to earlier times. It also
  fails on a clock with a positive \<open>tsc_ghz_inv\<close> and a negative \<open>ns_offset\<close>, for a tick
  value whose converted time is negative and wraps to a large \<open>uint64_t\<close>.
\<close>

theorem tsc2ns_monotone_counterexample:
  "(2000 :: u64) \<le> 4000 \<and>
   tsc2ns backward_clock 2000 = 4999999500 \<and> tsc2ns backward_clock 4000 = 4999998500 \<and>
   \<not> tsc2ns backward_clock 2000 \<le> tsc2ns backward_clock 4000 \<and>
   (0 :: u64) \<le> 4000000000000 \<and>
   tsc2ns late_counter 0 = 18446742574709551616 \<and>
   tsc2ns late_counter 4000000000000 = 501000000000 \<and>
   \<not> tsc2ns late_counter 0 \<le> tsc2ns late_counter 4000000000000"
proof -
  have "scaled (Finite False (1 / 2)) 0 = 0"
    by (simp add: scaled_def int_to_double_0 mk_double_def round_mag_def pow2_def)
  then show ?thesis
    by (simp add: tsc2ns_def backward_clock_fields backward_clock_scaled late_off late2)
qed

text \<open>
  C7, as the code has it. With a finite, non-negative \<open>tsc_ghz_inv\<close> and tick values
  \<open>a < b\<close> below \<open>2\<^sup>5\<^sup>3\<close> whose scaled value \<open>b * tsc_ghz_inv\<close> is below \<open>2\<^sup>5\<^sup>3\<close>, the
  difference \<open>tsc2ns(b) - tsc2ns(a)\<close>, taken in \<open>uint64_t\<close>, is \<open>(b - a) * tsc_ghz_inv\<close> with
  an absolute error of less than 2 ns: less than 1 ns from the two truncations, and at
  most half a nanosecond from the rounding of each of the two products.
\<close>

theorem tsc2ns_linear:
  assumes "tsc_ghz_inv c = Finite False g" and "0 \<le> g"
    and "a < b" and "uint b < 2 ^ 53" and "of_int (uint b) * g < 2 ^ 53"
  shows "\<bar>of_int (uint (tsc2ns c b - tsc2ns c a)) - of_int (uint b - uint a) * g\<bar> < 2"
proof -
  let ?xa = "of_int (uint a) * g" and ?xb = "of_int (uint b) * g"
  have ab: "uint a \<le> uint b" using assms(3) by (simp add: word_less_def)
  with assms(4) have a53: "uint a < 2 ^ 53" by simp
  have a63: "uint a < 2 ^ 63" and b63: "uint b < 2 ^ 63"
    using a53 assms(4) by simp_all
  have ua: "(0::rat) \<le> of_int (uint a)" and ub: "(0::rat) \<le> of_int (uint b)"
    by (rule of_int_nonneg, simp)+
  have xa0: "0 \<le> ?xa" and xb0: "0 \<le> ?xb"
    using ua ub assms(2) by (simp_all only: mult_nonneg_nonneg)
  have "(of_int (uint a) :: rat) \<le> of_int (uint b)"
    using ab by (simp only: of_int_le_iff)
  then have xab: "?xa \<le> ?xb"
    using assms(2) by (rule mult_right_mono)
  with assms(5) have xa53: "?xa < 2 ^ 53" by simp
  have ea: "round_mag (of_int (uint a)) = of_int (uint a)"
    using a53 by (rule round_mag_uint_exact)
  have eb: "round_mag (of_int (uint b)) = of_int (uint b)"
    using assms(4) by (rule round_mag_uint_exact)
  have "?xb \<le> pow2 53" using assms(5) by (simp add: pow2_def)
  with xb0 have "round_mag ?xb \<le> pow2 53" by (rule round_mag_le_pow2) simp
  also have "pow2 53 < 2 ^ 63" by (simp add: pow2_def)
  finally have rb: "round_mag (round_mag (of_int (uint b)) * g) < 2 ^ 63"
    unfolding eb .
  have le: "round_mag ?xa \<le> round_mag ?xb"
    using xa0 xab by (rule round_mag_mono)
  with rb have ra: "round_mag (round_mag (of_int (uint a)) * g) < 2 ^ 63"
    unfolding ea eb by simp
  have sa: "scaled (Finite False g) a = word_of_int \<lfloor>round_mag ?xa\<rfloor>"
    using scaled_nonneg(1) [OF assms(2) a63 ra] unfolding ea .
  have sb: "scaled (Finite False g) b = word_of_int \<lfloor>round_mag ?xb\<rfloor>"
    using scaled_nonneg(1) [OF assms(2) b63 rb] unfolding eb .
  have fa: "0 \<le> \<lfloor>round_mag ?xa\<rfloor>"
    using round_mag_nonneg [OF xa0] by simp
  have fb: "\<lfloor>round_mag ?xb\<rfloor> < 2 ^ 63"
    using rb unfolding eb by (simp add: floor_less_iff)
  have fl: "\<lfloor>round_mag ?xa\<rfloor> \<le> \<lfloor>round_mag ?xb\<rfloor>"
    using le by (rule floor_mono)
  define k where "k = \<lfloor>round_mag ?xb\<rfloor> - \<lfloor>round_mag ?xa\<rfloor>"
  have "(2::int) ^ 63 < 2 ^ 64" by simp
  then have k: "0 \<le> k" "k < 2 ^ 64"
    using fa fb fl unfolding k_def by linarith+
  have "tsc2ns c b - tsc2ns c a = scaled (Finite False g) b - scaled (Finite False g) a"
    by (simp add: tsc2ns_def assms(1))
  also have "\<dots> = word_of_int k"
    unfolding sa sb k_def by simp
  finally have "uint (tsc2ns c b - tsc2ns c a) = k mod 2 ^ 64"
    by (simp only: uint_word_of_int) simp
  then have d: "uint (tsc2ns c b - tsc2ns c a) = k"
    using k by simp
  have "\<bar>of_int k - (?xb - ?xa)\<bar> < 2"
    unfolding k_def
    using round_mag_err_half [OF xa0 xa53] round_mag_err_half [OF xb0 assms(5)]
    by (rule floor_diff_bound)
  moreover have "of_int (uint b - uint a) * g = ?xb - ?xa"
    by (simp add: algebra_simps)
  ultimately show ?thesis
    unfolding d by simp
qed

theorem tsc2ns_linear_witness:
  "tsc_ghz_inv ghz3_clock = Finite False (6004799503160661 / 18014398509481984) \<and>
   (1000000000 :: u64) < 4000000000 \<and>
   tsc2ns ghz3_clock 1000000000 = 5000000000 \<and>
   tsc2ns ghz3_clock 4000000000 = 6000000000 \<and>
   \<bar>of_int (uint (tsc2ns ghz3_clock 4000000000 - tsc2ns ghz3_clock 1000000000)) -
     of_int (uint (4000000000 :: u64) - uint (1000000000 :: u64)) *
       (6004799503160661 / 18014398509481984)\<bar> < (2 :: rat)"
proof -
  have g: "tsc_ghz_inv ghz3_clock = Finite False (6004799503160661 / 18014398509481984)"
    "(0::rat) \<le> 6004799503160661 / 18014398509481984"
    by (simp_all add: ghz3_clock_fields)
  have ab: "(1000000000 :: u64) < 4000000000" and b: "uint (4000000000 :: u64) < 2 ^ 53"
    and p: "of_int (uint (4000000000 :: u64)) * (6004799503160661 / 18014398509481984) < (2 ^ 53 :: rat)"
    by simp_all
  note t = tsc2ns_linear [OF g ab b p]
  have v: "tsc2ns ghz3_clock 1000000000 = 5000000000" "tsc2ns ghz3_clock 4000000000 = 6000000000"
    by (simp_all add: tsc2ns_def ghz3_clock_fields ghz3_scaled)
  show ?thesis
    using g(1) ab v t by blast
qed

text \<open>
  C7, as stated, fails for large tick values: on the 3 GHz clock the tick values \<open>2\<^sup>5\<^sup>6\<close>
  and \<open>2\<^sup>5\<^sup>6 + 8\<close> convert to the same \<open>double\<close> and so to the same time, while
  \<open>8 * tsc_ghz_inv\<close> is more than 2.6 ns.
\<close>

theorem tsc2ns_linear_counterexample:
  "(72057594037927936 :: u64) < 72057594037927944 \<and>
   tsc2ns ghz3_clock 72057594037927944 - tsc2ns ghz3_clock 72057594037927936 = 0 \<and>
   \<not> \<bar>of_int (uint (tsc2ns ghz3_clock 72057594037927944 - tsc2ns ghz3_clock 72057594037927936)) -
        of_int (uint (72057594037927944 :: u64) - uint (72057594037927936 :: u64)) *
          valof (tsc_ghz_inv ghz3_clock)\<bar> < 1"
  by (simp add: tsc2ns_def ghz3_clock_fields ghz3_scaled_large)

text \<open>
  C5. \<open>init\<close> with a positive argument writes \<open>1.0 / tsc_ghz\<close> to \<open>tsc_ghz_inv\<close>. A second
  \<open>init\<close> with the same argument as the first leaves \<open>tsc_ghz_inv\<close> bit-identical. \<open>init\<close>
  with the frequency that \<open>calibrate\<close> returned, in whatever state \<open>calibrate\<close> was called,
  leaves \<open>tsc_ghz_inv\<close> either bit-identical or positive, finite and within a relative
  error of \<open>2\<^sup>-\<^sup>5\<^sup>1\<close> of its value before the call (the reciprocal of the reciprocal,
  each rounded).
\<close>

theorem reinit_scale:
  "tsc_ghz_inv (init (init c g t1 n1) g t2 n2) = tsc_ghz_inv (init c g t1 n1) \<and>
   (tsc_ghz_inv (init (snd (calibrate c t1 n1)) (fst (calibrate c t1 n1)) t2 n2) =
     tsc_ghz_inv (snd (calibrate c t1 n1)) \<or>
   (\<exists>x z. tsc_ghz_inv (snd (calibrate c t1 n1)) = Finite False x \<and>
      tsc_ghz_inv (init (snd (calibrate c t1 n1)) (fst (calibrate c t1 n1)) t2 n2) = Finite False z \<and>
      \<bar>z - x\<bar> \<le> x / 2 ^ 51))"
proof -
  have "quotient_shape (tsc_ghz_inv (snd (calibrate c t1 n1)))"
    unfolding calibrate_tsc_ghz_inv by (rule quotient_shape_ddiv) (rule sint_abs_u64)+
  then have "tsc_ghz_inv (init (snd (calibrate c t1 n1)) (fst (calibrate c t1 n1)) t2 n2) =
       tsc_ghz_inv (snd (calibrate c t1 n1)) \<or>
     (\<exists>x z. tsc_ghz_inv (snd (calibrate c t1 n1)) = Finite False x \<and>
        tsc_ghz_inv (init (snd (calibrate c t1 n1)) (fst (calibrate c t1 n1)) t2 n2) = Finite False z \<and>
        \<bar>z - x\<bar> \<le> x / 2 ^ 51)"
    unfolding init_after_calibrate by (rule reciprocal_twice)
  with init_twice [of c g t1 n1 t2 n2] show ?thesis by (rule conjI)
qed

text \<open>
  The second case occurs: after the calibration on the 2.6 GHz counter \<open>tsc_ghz_inv\<close> is
  \<open>5/13\<close> rounded, \<open>calibrate\<close> returns its rounded reciprocal, and \<open>init\<close> with that
  frequency writes the next double above.
\<close>

lemma reinit_changes_last_bit:
  "tsc_ghz_inv (snd ghz26_calibration) = Finite False (6928614811339225 / 18014398509481984) \<and>
   tsc_ghz_inv (init (snd ghz26_calibration) (fst ghz26_calibration)
                  (steady 20000000000) (steady 12000000000)) =
     Finite False (6928614811339226 / 18014398509481984) \<and>
   tsc_ghz_inv (init (snd ghz26_calibration) (fst ghz26_calibration)
                  (steady 20000000000) (steady 12000000000)) \<noteq>
     tsc_ghz_inv (snd ghz26_calibration)"
proof -
  have "ddiv d_one (Finite False (1463669878895411 / 562949953421312)) =
      Finite False (6928614811339226 / 18014398509481984)"
    by (simp add: d_one_def mk_double_eval [where e = "- 2"] double_eval)
  then have "tsc_ghz_inv (init (snd ghz26_calibration) (fst ghz26_calibration)
                  (steady 20000000000) (steady 12000000000)) =
     Finite False (6928614811339226 / 18014398509481984)"
    by (simp add: init_pos ghz26_calibration_fields)
  then show ?thesis
    by (simp add: ghz26_calibration_fields)
qed

end
